theory Spec2Isabelle
  imports Complex_Main "HOL-Library.Product_Lexorder" "HOL-Library.Multiset"
begin

section \<open>The similarity-graph export of \<open>export_graph.py\<close>\<close>

text \<open>
  Row indices of the embedding matrix are natural numbers.  The entries of the embedding
  matrix and of a layout are modelled by the reals: rounding and overflow of float32 and
  float64 are outside the model.
\<close>

type_synonym vec = "real list"
type_synonym matrix = "vec list"
type_synonym edge = "nat \<times> nat \<times> real"

text \<open>
  A similarity is a dot product or, where the source writes \<open>-np.inf\<close>, minus infinity;
  negating a row (\<open>-sims\<close>) turns that into plus infinity.  The floor \<open>min_sim\<close> is a float
  supplied by the caller, which can be any float: a number, an infinity or NaN.  The
  comparisons are those of IEEE floats: every comparison with NaN is false.
\<close>

datatype xreal = MInf | Fin real | PInf

fun xle :: "xreal \<Rightarrow> xreal \<Rightarrow> bool" where
  "xle MInf _ = True"
| "xle _ PInf = True"
| "xle (Fin a) (Fin b) = (a \<le> b)"
| "xle _ _ = False"

fun xneg :: "xreal \<Rightarrow> xreal" where
  "xneg MInf = PInf"
| "xneg PInf = MInf"
| "xneg (Fin a) = Fin (- a)"

datatype pyfloat = NaN | Num xreal

text \<open>\<open>sim < min_sim\<close>, \<open>min_sim * 0.5\<close> and \<open>sim >= t\<close>.\<close>

fun below :: "xreal \<Rightarrow> pyfloat \<Rightarrow> bool" where
  "below s NaN = False"
| "below s (Num m) = (\<not> xle m s)"

fun half :: "pyfloat \<Rightarrow> pyfloat" where
  "half NaN = NaN"
| "half (Num MInf) = Num MInf"
| "half (Num PInf) = Num PInf"
| "half (Num (Fin a)) = Num (Fin (a * 0.5))"

fun at_least :: "xreal \<Rightarrow> pyfloat \<Rightarrow> bool" where
  "at_least s NaN = False"
| "at_least s (Num t) = xle t s"

text \<open>An edge of the exported graph: its weight is a similarity as the neighbour lists
  carry it.\<close>

type_synonym wedge = "nat \<times> nat \<times> xreal"

text \<open>
  Exceptions are values: a function that can raise returns \<open>error + 'a\<close>.
  \<open>MissingEmbeddings n\<close> is the \<open>RuntimeError\<close> whose message starts with the number \<open>n\<close>
  of papers without a vector; \<open>BackendError\<close> stands for any exception raised inside a
  layout back-end.
\<close>

datatype error =
    RuntimeError string
  | MissingEmbeddings nat
  | ValueError string
  | OverflowError string
  | IndexError string
  | ImportError string
  | BackendError string

definition dot :: "vec \<Rightarrow> vec \<Rightarrow> real" where
  "dot u v = sum_list (map2 (*) u v)"

text \<open>
  \<open>cos_sim X u v\<close> is \<open>float(X[u] @ X[v])\<close>.  Every index the export passes is a row
  index of \<open>X\<close> (it comes from enumerating the papers, and \<open>X\<close> has one row per paper).
\<close>

definition cos_sim :: "matrix \<Rightarrow> nat \<Rightarrow> nat \<Rightarrow> real" where
  "cos_sim X u v = dot (X ! u) (X ! v)"

text \<open>The canonical form of an unordered pair (\<open>a, b = (u, v) if u < v else (v, u)\<close>),
  and the unordered pair an edge stands for.\<close>

definition canon :: "nat \<Rightarrow> nat \<Rightarrow> nat \<times> nat" where
  "canon u v = (if u < v then (u, v) else (v, u))"

definition edge_key :: "nat \<times> nat \<times> 'w \<Rightarrow> nat \<times> nat" where
  "edge_key e = canon (fst e) (fst (snd e))"


subsection \<open>Step 5: the top-k neighbours of every row\<close>

text \<open>
  \<open>numpy.argpartition\<close> and \<open>numpy.argsort\<close> are library functions.  NumPy fixes what they
  return only up to the order of equal elements (and, for \<open>argpartition\<close>, up to the order
  inside the two parts), so they are parameters of the model, and the two predicates
  below state what NumPy documents: both return a permutation of the indices of the
  array; after \<open>argpartition(a, kth)\<close> the element at position \<open>kth\<close> is in its sorted
  position, nothing larger stands before it and nothing smaller behind it; \<open>argsort(a)\<close>
  lists the indices in ascending order of their values.
\<close>

record numpy =
  argpartition :: "xreal list \<Rightarrow> nat \<Rightarrow> nat list"
  argsort :: "xreal list \<Rightarrow> nat list"

definition argpartition_ok :: "(xreal list \<Rightarrow> nat \<Rightarrow> nat list) \<Rightarrow> bool" where
  "argpartition_ok ap \<longleftrightarrow>
     (\<forall>a kth. kth < length a \<longrightarrow>
        mset (ap a kth) = mset [0..<length a]
        \<and> (\<forall>p < kth. xle (a ! (ap a kth ! p)) (a ! (ap a kth ! kth)))
        \<and> (\<forall>p < length a. kth < p \<longrightarrow> xle (a ! (ap a kth ! kth)) (a ! (ap a kth ! p))))"

definition argsort_ok :: "(xreal list \<Rightarrow> nat list) \<Rightarrow> bool" where
  "argsort_ok srt \<longleftrightarrow>
     (\<forall>a. mset (srt a) = mset [0..<length a]
          \<and> sorted_wrt (\<lambda>i j. xle (a ! i) (a ! j)) (srt a))"

text \<open>
  \<open>top_idx = argpartition(sims, -k_eff)[-k_eff:]\<close> followed by
  \<open>top_idx = top_idx[argsort(-sims[top_idx])]\<close>, for \<open>0 < k_eff \<le> len(sims)\<close>:
  the negative position \<open>-k_eff\<close> is \<open>len(sims) - k_eff\<close>.
\<close>

definition top_indices :: "numpy \<Rightarrow> xreal list \<Rightarrow> nat \<Rightarrow> nat list" where
  "top_indices np sims k_eff =
     (let top_idx = drop (length sims - k_eff) (argpartition np sims (length sims - k_eff));
          order = argsort np (map (\<lambda>t. xneg (sims ! t)) top_idx)
      in map (\<lambda>p. top_idx ! p) order)"

text \<open>
  The loop over \<open>top_idx\<close>: \<open>if sim < min_sim: continue\<close>, else append \<open>(j, sim)\<close>; \<open>gidx\<close>
  maps a position of the row to the row index it stands for.  Nothing but this comparison
  removes an entry, the masked one included.
\<close>

fun keep_pairs :: "pyfloat \<Rightarrow> xreal list \<Rightarrow> nat list \<Rightarrow> nat list \<Rightarrow> (nat \<times> xreal) list" where
  "keep_pairs min_sim sims gidx [] = []"
| "keep_pairs min_sim sims gidx (jj # rest) =
     (if below (sims ! jj) min_sim then keep_pairs min_sim sims gidx rest
      else (gidx ! jj, sims ! jj) # keep_pairs min_sim sims gidx rest)"

text \<open>
  One row with all rows as candidates (\<open>same_cluster_only = False\<close>).  The rows are
  computed in batches of 1024 or 4096; a batch is a block of the same matrix product, so
  the batch size does not enter the result.
\<close>

definition neigh_row_all :: "numpy \<Rightarrow> matrix \<Rightarrow> int \<Rightarrow> pyfloat \<Rightarrow> nat \<Rightarrow> (nat \<times> xreal) list" where
  "neigh_row_all np X top_k min_sim i =
     (let N = length X;
          sims_row = (map (\<lambda>j. Fin (cos_sim X i j)) [0..<N])[i := MInf];
          k_eff = min top_k (int N - 1)
      in if k_eff > 0
         then keep_pairs min_sim sims_row [0..<N] (top_indices np sims_row (nat k_eff))
         else [])"

text \<open>One row with the members of its own cluster as candidates
  (\<open>same_cluster_only = True\<close>); \<open>cids\<close> lists the cluster id of every row.\<close>

definition cluster_indices :: "int list \<Rightarrow> int \<Rightarrow> nat list" where
  "cluster_indices cids c = filter (\<lambda>idx. cids ! idx = c) [0..<length cids]"

definition neigh_row_cluster ::
  "numpy \<Rightarrow> matrix \<Rightarrow> int list \<Rightarrow> int \<Rightarrow> pyfloat \<Rightarrow> nat \<Rightarrow> (nat \<times> xreal) list" where
  "neigh_row_cluster np X cids top_k min_sim i =
     (let indices = cluster_indices cids (cids ! i);
          sims = map (\<lambda>g. if g = i then MInf else Fin (cos_sim X i g)) indices;
          k_eff = min top_k (int (length sims))
      in if k_eff > 0
         then keep_pairs min_sim sims indices (top_indices np sims (nat k_eff))
         else [])"

definition neighbors ::
  "numpy \<Rightarrow> matrix \<Rightarrow> int list \<Rightarrow> int \<Rightarrow> pyfloat \<Rightarrow> bool \<Rightarrow> (nat \<times> xreal) list list" where
  "neighbors np X cids top_k min_sim same_cluster_only =
     (let N = length X
      in if N > 1
         then map (\<lambda>i. if same_cluster_only then neigh_row_cluster np X cids top_k min_sim i
                        else neigh_row_all np X top_k min_sim i) [0..<N]
         else replicate N [])"

text \<open>
  Two instances of the library functions, both within NumPy's contract: a stable
  insertion sort of the indices, and a sort that leaves equal elements in descending
  index order (a selection by repeated minimum search and swap can leave them so).
\<close>

fun xinsort :: "xreal list \<Rightarrow> nat \<Rightarrow> nat list \<Rightarrow> nat list" where
  "xinsort a i [] = [i]"
| "xinsort a i (j # js) = (if xle (a ! i) (a ! j) then i # j # js else j # xinsort a i js)"

definition argsort_stable :: "xreal list \<Rightarrow> nat list" where
  "argsort_stable a = foldr (xinsort a) [0..<length a] []"

definition argpartition_rev :: "xreal list \<Rightarrow> nat \<Rightarrow> nat list" where
  "argpartition_rev a kth = foldr (xinsort a) (rev [0..<length a]) []"

text \<open>Example data: four unit vectors, two of them equally similar to the fourth.\<close>

definition example_np :: numpy where
  "example_np = \<lparr>argpartition = argpartition_rev, argsort = argsort_stable\<rparr>"

definition example_X :: matrix where
  "example_X = [[1, 0], [7/25, 24/25], [0, 1], [4/5, 3/5]]"

subsection \<open>Step 6: a spanning tree per cluster\<close>

text \<open>
  The priority queue of \<open>heapq\<close> holds tuples \<open>(1.0 - sim, u, v, sim)\<close>, compared
  lexicographically.  It is kept here as a list in ascending order: \<open>heappush\<close> inserts,
  \<open>heappop\<close> takes the least entry, as the binary heap does (the order is total, so the
  entry popped and the entries left do not depend on the heap's layout).  \<open>heappop\<close> on
  an empty queue raises \<open>IndexError\<close>, here \<open>None\<close>; the loop only pops when the queue
  is not empty.
\<close>

type_synonym heap_entry = "real \<times> nat \<times> nat \<times> real"

definition heappush :: "heap_entry list \<Rightarrow> heap_entry \<Rightarrow> heap_entry list" where
  "heappush h e = insort e h"

definition heappop :: "heap_entry list \<Rightarrow> (heap_entry \<times> heap_entry list) option" where
  "heappop h = (case h of [] \<Rightarrow> None | e # h' \<Rightarrow> Some (e, h'))"

text \<open>The inner loop \<open>for w in indices: if w in in_tree: continue; push\<close>.\<close>

definition push_frontier ::
  "matrix \<Rightarrow> nat list \<Rightarrow> nat list \<Rightarrow> nat \<Rightarrow> heap_entry list \<Rightarrow> heap_entry list" where
  "push_frontier X indices in_tree v edges =
     fold (\<lambda>w h. if w \<in> set in_tree then h
                  else heappush h (1 - cos_sim X v w, v, w, cos_sim X v w))
          indices edges"

text \<open>
  The \<open>while\<close> loop.  The Python set \<open>in_tree\<close> is the list of its elements in the order
  they were added (an element is added only when absent, so \<open>len(in_tree)\<close> is the
  length of the list).
\<close>

function mst_loop ::
  "matrix \<Rightarrow> nat list \<Rightarrow> nat list \<Rightarrow> heap_entry list \<Rightarrow> edge list \<Rightarrow> edge list" where
  "mst_loop X indices in_tree edges mst =
     (if length in_tree < length indices \<and> edges \<noteq> [] then
        (case heappop edges of
           None \<Rightarrow> mst
         | Some ((d, u, v, s), edges') \<Rightarrow>
             if v \<in> set in_tree then mst_loop X indices in_tree edges' mst
             else mst_loop X indices (in_tree @ [v])
                    (push_frontier X indices (in_tree @ [v]) v edges')
                    (mst @ [(u, v, s)]))
      else mst)"
  by pat_completeness auto
termination
  by (relation "measures [\<lambda>(X, indices, in_tree, edges, mst). length indices - length in_tree,
                          \<lambda>(X, indices, in_tree, edges, mst). length edges]")
     (auto simp: heappop_def split: list.splits)

declare mst_loop.simps [simp del]

definition cluster_mst :: "matrix \<Rightarrow> nat list \<Rightarrow> edge list" where
  "cluster_mst X indices =
     (if length indices \<le> 1 then []
      else let i0 = hd indices;
               edges = fold (\<lambda>j h. heappush h (1 - cos_sim X i0 j, i0, j, cos_sim X i0 j))
                            (tl indices) []
           in mst_loop X indices [i0] edges [])"

text \<open>Graph vocabulary for the spanning-tree property: adjacency in an undirected edge
  list, connectedness of a vertex set, and simple cycles.\<close>

definition adj :: "edge list \<Rightarrow> nat \<Rightarrow> nat \<Rightarrow> bool" where
  "adj es a b \<longleftrightarrow> (\<exists>w. (a, b, w) \<in> set es \<or> (b, a, w) \<in> set es)"

definition connected_on :: "edge list \<Rightarrow> nat set \<Rightarrow> bool" where
  "connected_on es V \<longleftrightarrow> (\<forall>a \<in> V. \<forall>b \<in> V. (a, b) \<in> {(x, y). adj es x y}\<^sup>*)"

definition cycle_in :: "edge list \<Rightarrow> nat list \<Rightarrow> bool" where
  "cycle_in es vs \<longleftrightarrow> 3 \<le> length vs \<and> distinct vs
      \<and> (\<forall>i < length vs. adj es (vs ! i) (vs ! (Suc i mod length vs)))"

definition acyclic_edges :: "edge list \<Rightarrow> bool" where
  "acyclic_edges es \<longleftrightarrow> (\<forall>(u, v, w) \<in> set es. u \<noteq> v) \<and> distinct (map edge_key es)
      \<and> (\<nexists>vs. cycle_in es vs)"

text \<open>A tree grown from a root by attaching one new vertex at a time to a vertex already
  in the tree: the shape in which the loop builds \<open>mst\<close>.\<close>

inductive grown :: "nat list \<Rightarrow> edge list \<Rightarrow> bool" where
  grown_root: "grown [r] []"
| grown_step: "grown vs es \<Longrightarrow> u \<in> set vs \<Longrightarrow> v \<notin> set vs \<Longrightarrow> grown (vs @ [v]) (es @ [(u, v, s)])"

text \<open>Invariant of the \<open>while\<close> loop: \<open>mst\<close> is a tree grown over \<open>in_tree\<close>, every
  queue entry leads from a tree vertex to a cluster member and carries their similarity,
  and every member not yet in the tree is the target of some queue entry.\<close>

definition mst_inv ::
  "matrix \<Rightarrow> nat list \<Rightarrow> nat list \<Rightarrow> heap_entry list \<Rightarrow> edge list \<Rightarrow> bool" where
  "mst_inv X indices in_tree edges mst \<longleftrightarrow>
     grown in_tree mst \<and> set in_tree \<subseteq> set indices
     \<and> (\<forall>(d, u, v, s) \<in> set edges. u \<in> set in_tree \<and> v \<in> set indices \<and> s = cos_sim X u v)
     \<and> (\<forall>w \<in> set indices - set in_tree. \<exists>d u s. (d, u, w, s) \<in> set edges)
     \<and> (\<forall>(u, v, s) \<in> set mst. s = cos_sim X u v)"

subsection \<open>Step 7: deduplication of edges\<close>

text \<open>
  The closure \<open>_emit_edge\<close> mutates the set \<open>seen\<close> and the list \<open>edge_list\<close> of the
  enclosing function; here both are threaded through as a record.  The weights are
  floats as the two sources deliver them; the spanning-tree edges pass the test
  \<open>sim >= min_sim * 0.5\<close>.
\<close>

record dedup_state =
  seen :: "(nat \<times> nat) set"
  edge_list :: "wedge list"

definition emit_edge :: "dedup_state \<Rightarrow> nat \<Rightarrow> nat \<Rightarrow> xreal \<Rightarrow> dedup_state" where
  "emit_edge st u v sim =
     (let key = canon u v in
      if key \<in> seen st then st
      else st\<lparr>seen := insert key (seen st),
              edge_list := edge_list st @ [(fst key, snd key, sim)]\<rparr>)"

definition emit_neighbors :: "dedup_state \<Rightarrow> (nat \<times> xreal) list list \<Rightarrow> dedup_state" where
  "emit_neighbors st neigh_pairs =
     fold (\<lambda>(i, lst) s. fold (\<lambda>(j, sim) s'. emit_edge s' i j sim) lst s)
          (enumerate 0 neigh_pairs) st"

definition emit_mst :: "dedup_state \<Rightarrow> wedge list \<Rightarrow> pyfloat \<Rightarrow> dedup_state" where
  "emit_mst st mst_edges min_sim =
     fold (\<lambda>(u, v, sim) s. if at_least sim (half min_sim) then emit_edge s u v sim else s)
          mst_edges st"

definition dedup_edges :: "(nat \<times> xreal) list list \<Rightarrow> wedge list \<Rightarrow> pyfloat \<Rightarrow> wedge list" where
  "dedup_edges neigh_pairs mst_edges min_sim =
     edge_list (emit_mst (emit_neighbors \<lparr>seen = {}, edge_list = []\<rparr> neigh_pairs)
                         mst_edges min_sim)"

text \<open>Vocabulary for stating the merge: the proposals in merge order, and the weight of
  the first proposal for an unordered pair.\<close>

definition neigh_edges :: "(nat \<times> xreal) list list \<Rightarrow> wedge list" where
  "neigh_edges neigh_pairs =
     concat (map (\<lambda>(i, lst). map (\<lambda>(j, sim). (i, j, sim)) lst) (enumerate 0 neigh_pairs))"

definition proposals :: "(nat \<times> xreal) list list \<Rightarrow> wedge list \<Rightarrow> pyfloat \<Rightarrow> wedge list" where
  "proposals neigh_pairs mst_edges min_sim =
     neigh_edges neigh_pairs @ filter (\<lambda>(u, v, sim). at_least sim (half min_sim)) mst_edges"

definition first_weight :: "wedge list \<Rightarrow> nat \<times> nat \<Rightarrow> xreal option" where
  "first_weight es k = map_option (\<lambda>e. snd (snd e)) (find (\<lambda>e. edge_key e = k) es)"


text \<open>Invariant of the deduplication state: \<open>seen\<close> holds exactly the keys of the emitted
  edges, no key is emitted twice, and every emitted edge has its smaller index first.\<close>

definition dd_inv :: "dedup_state \<Rightarrow> bool" where
  "dd_inv st \<longleftrightarrow> seen st = edge_key ` set (edge_list st)
      \<and> distinct (map edge_key (edge_list st))
      \<and> (\<forall>e \<in> set (edge_list st). fst e \<le> fst (snd e))"

subsection \<open>Step 8, after the back-end: normalisation and declutter\<close>

text \<open>
  A layout is an \<open>N \<times> 2\<close> array, here a list of points.  The reductions
  \<open>coords_arr.min(axis=0)\<close> and \<open>coords_arr.max(axis=0)\<close> raise \<open>ValueError\<close> on an
  array without rows.
\<close>

type_synonym point = "real \<times> real"

definition axis_min :: "real list \<Rightarrow> real" where
  "axis_min xs = fold min (tl xs) (hd xs)"

definition axis_max :: "real list \<Rightarrow> real" where
  "axis_max xs = fold max (tl xs) (hd xs)"

definition normalize_coords :: "point list \<Rightarrow> error + point list" where
  "normalize_coords coords_arr =
     (if coords_arr = [] then Inl (ValueError ''zero-size array to reduction operation'')
      else
        let mins = (axis_min (map fst coords_arr), axis_min (map snd coords_arr));
            maxs = (axis_max (map fst coords_arr), axis_max (map snd coords_arr));
            rng = (max (fst maxs - fst mins) (1 / 10 ^ 9), max (snd maxs - snd mins) (1 / 10 ^ 9))
        in Inr (map (\<lambda>(x, y). ((x - fst mins) / fst rng, (y - snd mins) / snd rng)) coords_arr))"

text \<open>
  \<open>_spread\<close>.  The dictionary \<open>buckets\<close> is an association list in insertion order
  (the order in which Python iterates it); \<open>setdefault(k, []).append(i)\<close> appends to
  the entry of \<open>k\<close>, creating it at the end when absent.
\<close>

type_synonym buckets = "((int \<times> int) \<times> nat list) list"

definition bucket_add :: "buckets \<Rightarrow> int \<times> int \<Rightarrow> nat \<Rightarrow> buckets" where
  "bucket_add bs k i =
     (if k \<in> fst ` set bs
      then map (\<lambda>(k', idxs). if k' = k then (k', idxs @ [i]) else (k', idxs)) bs
      else bs @ [(k, [i])])"

definition cell_of :: "real \<Rightarrow> point \<Rightarrow> int \<times> int" where
  "cell_of cell p = (\<lfloor>fst p / cell\<rfloor>, \<lfloor>snd p / cell\<rfloor>)"

definition build_buckets :: "real \<Rightarrow> point list \<Rightarrow> buckets" where
  "build_buckets cell P =
     fold (\<lambda>(i, p) bs. bucket_add bs (cell_of cell p) i) (enumerate 0 P) []"

definition neigh_keys :: "int \<times> int \<Rightarrow> (int \<times> int) list" where
  "neigh_keys k = concat (map (\<lambda>dx. map (\<lambda>dy. (fst k + dx, snd k + dy)) [-1, 0, 1]) [-1, 0, 1])"

text \<open>
  \<open>hot\<close> is a Python set turned into a list.  Its iteration order is not fixed by the
  source; the model lists the indices in the order of the neighbouring cells.  For one
  \<open>ii\<close> the order does not change the result in exact arithmetic (lemma
  \<open>spread_point_order\<close> below): each \<open>jj\<close> occurs once, \<open>xi, yi\<close> are read before the inner
  loop, \<open>P[jj]\<close> is touched only in its own iteration, and the increments of \<open>P[ii]\<close> add
  up.
\<close>

definition hot_of :: "buckets \<Rightarrow> int \<times> int \<Rightarrow> nat list" where
  "hot_of bs k =
     remdups (concat (map (\<lambda>k'. case map_of bs k' of None \<Rightarrow> [] | Some idxs \<Rightarrow> idxs)
                          (neigh_keys k)))"

text \<open>The body of the innermost loop for one \<open>jj\<close>; \<open>p_ii\<close> is the pair \<open>(xi, yi)\<close> read
  from \<open>P[ii]\<close> before the loop over \<open>hot\<close>.\<close>

definition push_pair :: "real \<Rightarrow> point \<Rightarrow> nat \<Rightarrow> point list \<Rightarrow> nat \<Rightarrow> point list" where
  "push_pair r_min p_ii ii P jj =
     (if jj \<le> ii then P
      else
        let dx = fst p_ii - fst (P ! jj); dy = snd p_ii - snd (P ! jj);
            d2 = dx * dx + dy * dy
        in if d2 < r_min * r_min \<and> d2 > 1 / 10 ^ 12 then
             let d = sqrt d2;
                 push = 0.5 * (r_min - d) / d;
                 P1 = P[ii := (fst (P ! ii) + dx * push, snd (P ! ii) + dy * push)]
             in P1[jj := (fst (P1 ! jj) - dx * push, snd (P1 ! jj) - dy * push)]
           else P)"

definition spread_point :: "real \<Rightarrow> nat list \<Rightarrow> point list \<Rightarrow> nat \<Rightarrow> point list" where
  "spread_point r_min hot P ii = fold (\<lambda>jj P'. push_pair r_min (P ! ii) ii P' jj) hot P"

definition spread_bucket ::
  "real \<Rightarrow> buckets \<Rightarrow> point list \<Rightarrow> (int \<times> int) \<times> nat list \<Rightarrow> point list" where
  "spread_bucket r_min bs P b =
     fold (\<lambda>ii P'. spread_point r_min (hot_of bs (fst b)) P' ii) (snd b) P"

definition spread_pass :: "real \<Rightarrow> point list \<Rightarrow> point list" where
  "spread_pass r_min P =
     (let bs = build_buckets r_min P
      in fold (\<lambda>b P'. spread_bucket r_min bs P' b) bs P)"

text \<open>
  With \<open>r_min = 0\<close> the first cell computation divides by zero: NumPy yields an
  infinity or a NaN, and \<open>int(...)\<close> of it raises (\<open>OverflowError\<close> for an infinity,
  \<open>ValueError\<close> for a NaN).  \<open>range(iters)\<close> is empty for \<open>iters \<le> 0\<close>.
\<close>

definition spread :: "point list \<Rightarrow> real \<Rightarrow> int \<Rightarrow> error + point list" where
  "spread points r_min iters =
     (if 0 < iters \<and> points \<noteq> [] \<and> r_min = 0
      then Inl (if fst (hd points) = 0 then ValueError ''cannot convert float NaN to integer''
                else OverflowError ''cannot convert float infinity to integer'')
      else Inr ((spread_pass r_min ^^ nat iters) points))"

text \<open>Squared distance of two points of a layout.\<close>

definition dist2 :: "point \<Rightarrow> point \<Rightarrow> real" where
  "dist2 p q = (fst p - fst q) * (fst p - fst q) + (snd p - snd q) * (snd p - snd q)"

text \<open>A layout is quiet when no pair of points satisfies the push condition of the
  innermost loop: every pair is at least \<open>r_min\<close> apart or within \<open>1e-12\<close> squared
  distance.\<close>

definition quiet :: "real \<Rightarrow> point list \<Rightarrow> bool" where
  "quiet r_min P \<longleftrightarrow>
     (\<forall>i < length P. \<forall>j < length P. i < j \<longrightarrow>
        \<not> (dist2 (P ! i) (P ! j) < r_min * r_min \<and> dist2 (P ! i) (P ! j) > 1 / 10 ^ 12))"

text \<open>The point indices held in a bucket dictionary.\<close>

definition bidx :: "buckets \<Rightarrow> nat set" where
  "bidx bs = (\<Union>b \<in> set bs. set (snd b))"

text \<open>The pairs of a cell and a point index in it, in the order in which a pass visits
  them (outer loop over the buckets, inner loop over \<open>idxs\<close>).\<close>

definition visits :: "buckets \<Rightarrow> ((int \<times> int) \<times> nat) list" where
  "visits bs = concat (map (\<lambda>(k, idxs). map (Pair k) idxs) bs)"

subsection \<open>The export: inputs, back-ends and payload\<close>

text \<open>
  The keyword arguments of \<open>export_json_graph\<close>.  \<open>include_summaries\<close> and
  \<open>max_summary_len\<close> only shape the display text of a node and are left out together
  with that text (see \<open>node\<close> below).
\<close>

record config =
  cfg_out_path :: string
  cfg_compact :: bool
  cfg_top_k :: int
  cfg_min_sim :: pyfloat
  cfg_same_cluster_only :: bool
  cfg_include_coords :: bool
  cfg_coords_method :: string
  cfg_fa2_iterations :: int
  cfg_fa2_scaling :: real
  cfg_fa2_gravity :: real
  cfg_fr_iterations :: int
  cfg_fr_seed :: int
  cfg_umap_n_neighbors :: int
  cfg_umap_min_dist :: real
  cfg_umap_random_state :: int
  cfg_pca_random_state :: int
  cfg_canvas_w :: int
  cfg_canvas_h :: int
  cfg_canvas_pad :: int
  cfg_add_cluster_mst :: bool
  cfg_gzip_out :: bool

text \<open>
  The database as the queries see it: the rows of the first \<open>SELECT\<close> (kept and clustered
  papers, in the order of the query), the table \<open>embeddings\<close> with columns
  \<open>(paper_id, model, dim, vector)\<close>, the vector already decoded by \<open>vec_from_bytes\<close>, and
  the cluster labels.
\<close>

record paper =
  p_id :: string
  p_cid :: int

record db =
  papers :: "paper list"
  embeddings :: "(string \<times> string \<times> nat \<times> vec) list"
  cluster_label :: "int \<Rightarrow> string option"

definition EMB_MODEL :: string where
  "EMB_MODEL = ''specter2''"

definition EMB_DIMS :: int where
  "EMB_DIMS = 768"

text \<open>
  The layout back-ends are libraries outside the repository; each is a function of the
  arguments the source passes to it, and fails with \<open>Inl\<close> where the library (or its
  import) raises.  The graph handed to the force layouts is the number of nodes and the
  weighted edges.  Every back-end is stochastic: its last argument is the state of the
  process' random generators at the time of the call, which the source never sets.
  \<open>spring_layout\<close>, UMAP and PCA take a seed (\<open>seed=\<close>, \<open>random_state=\<close>; \<open>None\<close> leaves the
  call unseeded).  ForceAtlas2 has no seed parameter; the source runs it with \<open>pos=None\<close>.
\<close>

type_synonym graph = "nat \<times> wedge list"

record backends =
  networkx :: bool
  forceatlas2 :: "graph \<Rightarrow> real \<Rightarrow> real \<Rightarrow> int \<Rightarrow> nat \<Rightarrow> error + point list"
  spring_layout :: "graph \<Rightarrow> int \<Rightarrow> int option \<Rightarrow> nat \<Rightarrow> error + point list"
  umap_fit_transform :: "matrix \<Rightarrow> int \<Rightarrow> real \<Rightarrow> int option \<Rightarrow> nat \<Rightarrow> error + point list"
  pca_fit_transform :: "matrix \<Rightarrow> int option \<Rightarrow> nat \<Rightarrow> error + point list"

text \<open>
  What the three libraries document for their seed: a call that is given one does not
  depend on the state of the random generators.
\<close>

definition seeded :: "backends \<Rightarrow> bool" where
  "seeded be \<longleftrightarrow>
     (\<forall>G iterations seed r r'.
         spring_layout be G iterations (Some seed) r = spring_layout be G iterations (Some seed) r')
   \<and> (\<forall>X n_neighbors min_dist seed r r'.
         umap_fit_transform be X n_neighbors min_dist (Some seed) r
           = umap_fit_transform be X n_neighbors min_dist (Some seed) r')
   \<and> (\<forall>X seed r r'. pca_fit_transform be X (Some seed) r = pca_fit_transform be X (Some seed) r')"

text \<open>
  The payload.  A node is identified by its row index in the compact schema and by the
  paper id in the verbose one; a link names its ends the same way.  The display fields of
  a node (title, authors, date, domain tag, link, trimmed summary) are copied from the
  paper row and take no part in the graph or the layout; they are not modelled.
\<close>

record node =
  n_id :: "nat + string"
  n_aid :: "string option"
  n_cid :: int
  n_xy :: "(int \<times> int) option"

record link =
  l_source :: "nat + string"
  l_target :: "nat + string"
  l_weight :: xreal

record payload =
  meta_model :: string
  meta_embedding_dim :: int
  meta_generated_at :: string
  meta_top_k :: int
  meta_min_sim :: pyfloat
  meta_same_cluster_only :: bool
  coords_included :: bool
  coords_method_used :: string
  coords_canvas :: "int \<times> int \<times> int"
  meta_compact :: bool
  clusters :: "(int \<times> string option \<times> nat) list"
  nodes :: "node list"
  links :: "link list"

subsection \<open>Steps 1 to 4: papers and embeddings\<close>

text \<open>\<open>v /= (np.linalg.norm(v) + 1e-12)\<close>.\<close>

definition unit_vec :: "vec \<Rightarrow> vec" where
  "unit_vec v = map (\<lambda>x. x / (sqrt (sum_list (map (\<lambda>y. y * y) v)) + 1 / 10 ^ 12)) v"

text \<open>The loop over \<open>emb_rows\<close>: the dictionary \<open>vec_by_id\<close> and \<open>dim\<close>, the \<open>dim\<close> column
  of the last row (\<open>None\<close> without rows).\<close>

definition load_vectors ::
  "(string \<times> string \<times> nat \<times> vec) list \<Rightarrow> string list \<Rightarrow> (string \<Rightarrow> vec option) \<times> nat option" where
  "load_vectors table ids =
     fold (\<lambda>(pid, model, d, v) (vec_by_id, dim). (vec_by_id(pid \<mapsto> unit_vec v), Some d))
          (filter (\<lambda>(pid, model, d, v). model = EMB_MODEL \<and> pid \<in> set ids) table)
          (Map.empty, None)"

text \<open>\<open>np.vstack\<close> raises \<open>ValueError\<close> when the rows differ in length.\<close>

definition vstack :: "vec list \<Rightarrow> error + matrix" where
  "vstack vs =
     (if \<forall>v \<in> set vs. length v = length (hd vs) then Inr vs
      else Inl (ValueError ''all the input array dimensions must match exactly''))"

record prepared =
  pr_ids :: "string list"
  pr_cluster_ids :: "int list"
  pr_dim :: "nat option"
  pr_X :: matrix

definition prepare :: "db \<Rightarrow> error + prepared" where
  "prepare d =
     (if papers d = [] then Inl (RuntimeError ''No kept/clustered papers. Run filter & cluster first.'')
      else
        let ids = map p_id (papers d);
            (vec_by_id, dim) = load_vectors (embeddings d) ids;
            missing = filter (\<lambda>pid. vec_by_id pid = None) ids
        in if missing \<noteq> [] then Inl (MissingEmbeddings (length missing))
           else case vstack (map (\<lambda>pid. the (vec_by_id pid)) ids) of
                  Inl e \<Rightarrow> Inl e
                | Inr X \<Rightarrow> Inr \<lparr>pr_ids = ids, pr_cluster_ids = map p_cid (papers d),
                                 pr_dim = dim, pr_X = X\<rparr>)"

subsection \<open>Steps 5 to 7: the edge list\<close>

text \<open>The keys of a \<open>defaultdict\<close> filled in one pass, in insertion order.\<close>

definition first_seen :: "'a list \<Rightarrow> 'a list" where
  "first_seen xs = rev (remdups (rev xs))"

definition all_mst_edges :: "matrix \<Rightarrow> int list \<Rightarrow> bool \<Rightarrow> edge list" where
  "all_mst_edges X cids add_cluster_mst =
     (if add_cluster_mst
      then concat (map (\<lambda>c. cluster_mst X (cluster_indices cids c)) (first_seen cids))
      else [])"

text \<open>The similarity of a spanning-tree edge is a dot product, a finite float.\<close>

definition build_edges :: "numpy \<Rightarrow> config \<Rightarrow> matrix \<Rightarrow> int list \<Rightarrow> wedge list" where
  "build_edges np cfg X cids =
     dedup_edges (neighbors np X cids (cfg_top_k cfg) (cfg_min_sim cfg) (cfg_same_cluster_only cfg))
                 (map (\<lambda>(u, v, sim). (u, v, Fin sim))
                      (all_mst_edges X cids (cfg_add_cluster_mst cfg)))
                 (cfg_min_sim cfg)"

subsection \<open>Step 8: the layout\<close>

text \<open>\<open>coords_method.lower()\<close>, for the ASCII letters.\<close>

definition lower :: "string \<Rightarrow> string" where
  "lower s = map (\<lambda>c. if 65 \<le> (of_char c :: nat) \<and> (of_char c :: nat) \<le> 90
                       then char_of (of_char c + 32 :: nat) else c) s"

text \<open>The graph built for the force layouts (\<open>G\<close>): all rows as nodes, the edges with distinct
  ends and positive weight.\<close>

definition layout_graph :: "matrix \<Rightarrow> wedge list \<Rightarrow> graph" where
  "layout_graph X edges = (length X, filter (\<lambda>(u, v, w). u \<noteq> v \<and> \<not> xle w (Fin 0)) edges)"

text \<open>
  The strategy chain for \<open>N \<ge> 2\<close>.  The result is \<open>coords_arr\<close> (\<open>None\<close> when no branch
  applies) and \<open>method_used\<close>.  A failure of ForceAtlas2 is caught and turns the request
  into \<open>fr\<close>; a failure of UMAP is caught and turns it into \<open>pca\<close>; a missing networkx
  raises \<open>RuntimeError\<close>; an exception of \<open>spring_layout\<close> or of PCA is not caught.  The
  seeds handed on are \<open>seed=int(fr_seed)\<close>, \<open>random_state=umap_random_state\<close> and
  \<open>random_state=pca_random_state\<close>.
\<close>

definition run_layout ::
  "backends \<Rightarrow> nat \<Rightarrow> config \<Rightarrow> matrix \<Rightarrow> wedge list \<Rightarrow> error + (point list option \<times> string)" where
  "run_layout be rng cfg X edges =
     (let method_req = lower (cfg_coords_method cfg) in
      if method_req = ''fa2'' \<or> method_req = ''fr'' then
        if \<not> networkx be
        then Inl (RuntimeError ''coords_method='fa2'/'fr' requires networkx (pip install networkx)'')
        else
          let G = layout_graph X edges;
              fa2_result =
                (if method_req = ''fa2''
                 then (case forceatlas2 be G (cfg_fa2_scaling cfg) (cfg_fa2_gravity cfg)
                              (cfg_fa2_iterations cfg) rng of
                         Inr c \<Rightarrow> Some c | Inl e \<Rightarrow> None)
                 else None)
          in case fa2_result of
               Some c \<Rightarrow> Inr (Some c, ''fa2'')
             | None \<Rightarrow>
                 (case spring_layout be G (cfg_fr_iterations cfg) (Some (cfg_fr_seed cfg)) rng of
                    Inl e \<Rightarrow> Inl e
                  | Inr c \<Rightarrow> Inr (Some c, ''fr''))
      else
        let umap_result =
              (if method_req = ''umap''
               then (case umap_fit_transform be X (cfg_umap_n_neighbors cfg) (cfg_umap_min_dist cfg)
                            (Some (cfg_umap_random_state cfg)) rng of
                       Inr c \<Rightarrow> Some c | Inl e \<Rightarrow> None)
               else None)
        in case umap_result of
             Some c \<Rightarrow> Inr (Some c, ''umap'')
           | None \<Rightarrow>
               if method_req = ''umap'' \<or> method_req = ''pca''
               then (case pca_fit_transform be X (Some (cfg_pca_random_state cfg)) rng of
                       Inl e \<Rightarrow> Inl e
                     | Inr c \<Rightarrow> Inr (Some c, ''pca''))
               else Inr (None, ''none''))"

text \<open>\<open>if method_used in ("fa2", "fr"): norm = _spread(norm, r_min=0.01, iters=1)\<close>.\<close>

definition declutter :: "string \<Rightarrow> point list \<Rightarrow> error + point list" where
  "declutter method_used nrm =
     (if method_used = ''fa2'' \<or> method_used = ''fr'' then spread nrm (1 / 100) 1
      else Inr nrm)"

text \<open>
  \<open>(canvas_pad + norm[:, k] * (canvas_w - 2 * canvas_pad)).astype(np.int32)\<close>: the cast
  truncates towards zero (values outside the 32-bit range are not modelled).
\<close>

definition to_int32 :: "real \<Rightarrow> int" where
  "to_int32 r = (if 0 \<le> r then \<lfloor>r\<rfloor> else \<lceil>r\<rceil>)"

definition canvas_map :: "config \<Rightarrow> point list \<Rightarrow> (int \<times> int) list" where
  "canvas_map cfg nrm =
     map (\<lambda>(x, y).
            (to_int32 (of_int (cfg_canvas_pad cfg)
                       + x * of_int (cfg_canvas_w cfg - 2 * cfg_canvas_pad cfg)),
             to_int32 (of_int (cfg_canvas_pad cfg)
                       + y * of_int (cfg_canvas_h cfg - 2 * cfg_canvas_pad cfg)))) nrm"

text \<open>Step 8 as a whole: the pixel coordinates (\<open>xs, ys\<close>, \<open>None\<close> without layout) and
  \<open>layout_method_used\<close>.\<close>

definition coords ::
  "backends \<Rightarrow> nat \<Rightarrow> config \<Rightarrow> matrix \<Rightarrow> wedge list \<Rightarrow> error + ((int \<times> int) list option \<times> string)" where
  "coords be rng cfg X edges =
     (if cfg_include_coords cfg \<and> length X \<ge> 2 \<and> lower (cfg_coords_method cfg) \<noteq> ''none''
      then
        (case run_layout be rng cfg X edges of
           Inl e \<Rightarrow> Inl e
         | Inr (None, method_used) \<Rightarrow> Inr (None, method_used)
         | Inr (Some coords_arr, method_used) \<Rightarrow>
             (case normalize_coords coords_arr of
                Inl e \<Rightarrow> Inl e
              | Inr nrm \<Rightarrow>
                  (case declutter method_used nrm of
                     Inl e \<Rightarrow> Inl e
                   | Inr spread_nrm \<Rightarrow> Inr (Some (canvas_map cfg spread_nrm), method_used))))
      else Inr (None, ''none''))"

subsection \<open>Steps 9 to 11: nodes, links, clusters, and the file\<close>

text \<open>\<open>xs[i]\<close> raises \<open>IndexError\<close> when the layout has fewer rows than there are papers.\<close>

definition build_nodes ::
  "bool \<Rightarrow> paper list \<Rightarrow> (int \<times> int) list option \<Rightarrow> error + node list" where
  "build_nodes is_compact ps xy =
     (case xy of
        Some pts \<Rightarrow>
          if length pts < length ps then Inl (IndexError ''index out of bounds'')
          else Inr (map (\<lambda>(i, p). \<lparr>n_id = (if is_compact then Inl i else Inr (p_id p)),
                                     n_aid = (if is_compact then Some (p_id p) else None),
                                     n_cid = p_cid p, n_xy = Some (pts ! i)\<rparr>)
                        (enumerate 0 ps))
      | None \<Rightarrow>
          Inr (map (\<lambda>(i, p). \<lparr>n_id = (if is_compact then Inl i else Inr (p_id p)),
                                 n_aid = (if is_compact then Some (p_id p) else None),
                                 n_cid = p_cid p, n_xy = None\<rparr>)
                   (enumerate 0 ps)))"

text \<open>\<open>round(float(w), 6)\<close>: to the nearest multiple of \<open>1e-6\<close>, a tie to the even one.\<close>

definition round6 :: "real \<Rightarrow> real" where
  "round6 w =
     (let y = w * 10 ^ 6; f = \<lfloor>y\<rfloor>; r = y - of_int f
      in of_int (if r < 1 / 2 then f else if 1 / 2 < r then f + 1
                 else if even f then f else f + 1) / 10 ^ 6)"

text \<open>\<open>round\<close> with a number of digits returns an infinity unchanged.\<close>

fun round6x :: "xreal \<Rightarrow> xreal" where
  "round6x (Fin w) = Fin (round6 w)"
| "round6x MInf = MInf"
| "round6x PInf = PInf"

definition build_links :: "bool \<Rightarrow> string list \<Rightarrow> wedge list \<Rightarrow> link list" where
  "build_links is_compact ids edges =
     map (\<lambda>(a, b, w). if is_compact then \<lparr>l_source = Inl a, l_target = Inl b, l_weight = round6x w\<rparr>
                       else \<lparr>l_source = Inr (ids ! a), l_target = Inr (ids ! b),
                             l_weight = round6x w\<rparr>) edges"

definition build_clusters :: "(int \<Rightarrow> string option) \<Rightarrow> int list \<Rightarrow> (int \<times> string option \<times> nat) list" where
  "build_clusters label cids =
     map (\<lambda>c. (c, label c, length (filter (\<lambda>x. x = c) cids))) (sort (remdups cids))"

text \<open>Everything up to the payload; \<open>now\<close> is the clock reading that becomes
  \<open>generated_at\<close>.\<close>

definition build_payload ::
  "backends \<Rightarrow> numpy \<Rightarrow> nat \<Rightarrow> string \<Rightarrow> config \<Rightarrow> db \<Rightarrow> error + payload" where
  "build_payload be np rng now cfg d =
     (case prepare d of
        Inl e \<Rightarrow> Inl e
      | Inr pr \<Rightarrow>
          let X = pr_X pr;
              edges = build_edges np cfg X (pr_cluster_ids pr)
          in case coords be rng cfg X edges of
               Inl e \<Rightarrow> Inl e
             | Inr (xy, layout_method_used) \<Rightarrow>
                 (case build_nodes (cfg_compact cfg) (papers d) xy of
                    Inl e \<Rightarrow> Inl e
                  | Inr ns \<Rightarrow>
                      Inr \<lparr>meta_model = EMB_MODEL,
                           meta_embedding_dim =
                             (case pr_dim pr of None \<Rightarrow> EMB_DIMS
                              | Some dm \<Rightarrow> if dm = 0 then EMB_DIMS else int dm),
                           meta_generated_at = now,
                           meta_top_k = cfg_top_k cfg,
                           meta_min_sim = cfg_min_sim cfg,
                           meta_same_cluster_only = cfg_same_cluster_only cfg,
                           coords_included = (xy \<noteq> None),
                           coords_method_used = layout_method_used,
                           coords_canvas = (cfg_canvas_w cfg, cfg_canvas_h cfg, cfg_canvas_pad cfg),
                           meta_compact = cfg_compact cfg,
                           clusters = build_clusters (cluster_label d) (pr_cluster_ids pr),
                           nodes = ns,
                           links = build_links (cfg_compact cfg) (pr_ids pr) edges\<rparr>))"

text \<open>
  The file system maps a path to the payload serialised into it.  The file is opened and
  written only after the payload is complete; an exception before that leaves the file
  system as it was.  (Failures of \<open>open\<close> or of the write itself are not modelled.)
\<close>

type_synonym files = "string \<Rightarrow> payload option"

definition export_json_graph ::
  "backends \<Rightarrow> numpy \<Rightarrow> nat \<Rightarrow> string \<Rightarrow> config \<Rightarrow> db \<Rightarrow> files \<Rightarrow> (error + string) \<times> files" where
  "export_json_graph be np rng now cfg d fs =
     (case build_payload be np rng now cfg d of
        Inl e \<Rightarrow> (Inl e, fs)
      | Inr safe \<Rightarrow>
          if cfg_gzip_out cfg
          then (Inr (cfg_out_path cfg @ ''.gz''), fs(cfg_out_path cfg @ ''.gz'' \<mapsto> safe))
          else (Inr (cfg_out_path cfg), fs(cfg_out_path cfg \<mapsto> safe)))"

subsection \<open>Vocabulary and example data for the export\<close>

text \<open>A paper has an embedding when the table holds a row for it under the model in use.\<close>

definition has_embedding :: "db \<Rightarrow> string \<Rightarrow> bool" where
  "has_embedding d pid \<longleftrightarrow>
     (\<exists>row \<in> set (embeddings d). fst row = pid \<and> fst (snd row) = EMB_MODEL)"

text \<open>The default arguments of \<open>export_json_graph\<close>.\<close>

definition default_cfg :: config where
  "default_cfg =
     \<lparr>cfg_out_path = ''force_graph.json'', cfg_compact = True, cfg_top_k = 8,
      cfg_min_sim = Num (Fin (85 / 100)), cfg_same_cluster_only = False, cfg_include_coords = True,
      cfg_coords_method = ''fr'', cfg_fa2_iterations = 800, cfg_fa2_scaling = 2,
      cfg_fa2_gravity = 1, cfg_fr_iterations = 300, cfg_fr_seed = 42,
      cfg_umap_n_neighbors = 15, cfg_umap_min_dist = 1 / 10, cfg_umap_random_state = 42,
      cfg_pca_random_state = 42, cfg_canvas_w = 1000, cfg_canvas_h = 700, cfg_canvas_pad = 24,
      cfg_add_cluster_mst = True, cfg_gzip_out = False\<rparr>"

text \<open>
  Example back-ends.  In both, a call without a seed draws its start position from the
  random state, as ForceAtlas2 always does, and a call with a seed does not.  In the
  first, \<open>spring_layout\<close> raises and the projections succeed; in the second ForceAtlas2
  and UMAP raise and the other two succeed.
\<close>

definition example_be :: backends where
  "example_be =
     \<lparr>networkx = True,
      forceatlas2 = (\<lambda>G scaling gravity iterations rng. Inr [(real rng, 0), (1, 1)]),
      spring_layout = (\<lambda>G iterations seed rng. Inl (BackendError ''spring_layout failed'')),
      umap_fit_transform = (\<lambda>X n_neighbors min_dist random_state rng.
         case random_state of Some s \<Rightarrow> Inr [(0, 0), (1, 1)] | None \<Rightarrow> Inr [(real rng, 0), (1, 1)]),
      pca_fit_transform = (\<lambda>X random_state rng.
         case random_state of Some s \<Rightarrow> Inr [(0, 0), (1, 1)] | None \<Rightarrow> Inr [(real rng, 0), (1, 1)])\<rparr>"

definition fallback_be :: backends where
  "fallback_be =
     \<lparr>networkx = True,
      forceatlas2 = (\<lambda>G scaling gravity iterations rng. Inl (ImportError ''No module named fa2'')),
      spring_layout = (\<lambda>G iterations seed rng.
         case seed of Some s \<Rightarrow> Inr [(0, 0), (1, 1)] | None \<Rightarrow> Inr [(real rng, 0), (1, 1)]),
      umap_fit_transform = (\<lambda>X n_neighbors min_dist random_state rng.
         Inl (ImportError ''No module named umap'')),
      pca_fit_transform = (\<lambda>X random_state rng.
         case random_state of Some s \<Rightarrow> Inr [(0, 1), (1, 0)] | None \<Rightarrow> Inr [(real rng, 1), (1, 0)])\<rparr>"

text \<open>A \<open>spring_layout\<close> that returns a chain of three close points and a far one.\<close>

definition chain_be :: backends where
  "chain_be =
     \<lparr>networkx = True,
      forceatlas2 = (\<lambda>G scaling gravity iterations rng. Inl (ImportError ''No module named fa2'')),
      spring_layout = (\<lambda>G iterations seed rng. Inr [(0, 0), (1 / 200, 0), (11 / 1000, 0), (1, 1)]),
      umap_fit_transform = (\<lambda>X n_neighbors min_dist random_state rng.
         Inl (ImportError ''No module named umap'')),
      pca_fit_transform = (\<lambda>X random_state rng. Inr [(0, 0), (1 / 200, 0), (11 / 1000, 0), (1, 1)])\<rparr>"

definition no_papers_db :: db where
  "no_papers_db = \<lparr>papers = [], embeddings = [], cluster_label = (\<lambda>c. None)\<rparr>"

definition one_paper_db :: db where
  "one_paper_db =
     \<lparr>papers = [\<lparr>p_id = ''p1'', p_cid = 0\<rparr>],
      embeddings = [(''p1'', ''specter2'', 2, [1, 0])],
      cluster_label = (\<lambda>c. None)\<rparr>"

definition two_papers_db :: db where
  "two_papers_db =
     \<lparr>papers = [\<lparr>p_id = ''p1'', p_cid = 0\<rparr>, \<lparr>p_id = ''p2'', p_cid = 0\<rparr>],
      embeddings = [(''p1'', ''specter2'', 2, [1, 0]), (''p2'', ''specter2'', 2, [0, 1])],
      cluster_label = (\<lambda>c. None)\<rparr>"

definition missing_vector_db :: db where
  "missing_vector_db =
     \<lparr>papers = [\<lparr>p_id = ''p1'', p_cid = 0\<rparr>, \<lparr>p_id = ''p2'', p_cid = 0\<rparr>],
      embeddings = [(''p1'', ''specter2'', 2, [1, 0])],
      cluster_label = (\<lambda>c. None)\<rparr>"

text \<open>The default arguments with another coordinate method.\<close>

definition method_cfg :: "string \<Rightarrow> config" where
  "method_cfg m = default_cfg\<lparr>cfg_coords_method := m\<rparr>"

text \<open>A result of \<open>build_payload\<close> with the generation timestamp blanked.\<close>

definition erase_time :: "error + payload \<Rightarrow> error + payload" where
  "erase_time r = map_sum id (\<lambda>pl. pl\<lparr>meta_generated_at := []\<rparr>) r"

text \<open>The condition under which step 8 runs a layout at all.\<close>

definition layout_requested :: "config \<Rightarrow> matrix \<Rightarrow> bool" where
  "layout_requested cfg X \<longleftrightarrow>
     cfg_include_coords cfg \<and> length X \<ge> 2 \<and> lower (cfg_coords_method cfg) \<noteq> ''none''"

section \<open>Properties of the neighbour lists\<close>

lemma xle_refl: "xle a a"
  by (cases a) auto

lemma xle_trans: "xle a b \<Longrightarrow> xle b c \<Longrightarrow> xle a c"
  by (cases a; cases b; cases c) auto

lemma xle_total: "xle a b \<or> xle b a"
  by (cases a; cases b) auto

lemma xle_xneg: "xle (xneg a) (xneg b) \<longleftrightarrow> xle b a"
  by (cases a; cases b) auto

lemma perm_upt:
  assumes "mset r = mset [0..<n]"
  shows "distinct r" "set r = {..<n}" "length r = n"
proof -
  show "distinct r" using assms by (metis distinct_upt mset_eq_imp_distinct_iff)
  show "set r = {..<n}" using assms by (metis atLeast_upt mset_eq_setD)
  show "length r = n" using assms by (metis length_upt mset_eq_length diff_zero)
qed

lemma top_indices_props:
  assumes ap: "argpartition_ok (argpartition np)" and srt: "argsort_ok (argsort np)"
    and k: "0 < k" "k \<le> length sims"
  shows "distinct (top_indices np sims k)"
    and "set (top_indices np sims k) \<subseteq> {..<length sims}"
    and "length (top_indices np sims k) = k"
    and "sorted_wrt (\<lambda>p q. xle (sims ! q) (sims ! p)) (top_indices np sims k)"
    and "set (top_indices np sims k) = set (drop (length sims - k) (argpartition np sims (length sims - k)))"
proof -
  let ?n = "length sims"
  let ?kth = "?n - k"
  let ?r = "argpartition np sims ?kth"
  let ?top = "drop ?kth ?r"
  let ?vals = "map (\<lambda>t. xneg (sims ! t)) ?top"
  let ?ord = "argsort np ?vals"
  have kth: "?kth < ?n" using k by simp
  from ap kth have pr: "mset ?r = mset [0..<?n]" unfolding argpartition_ok_def by blast
  note r = perm_upt[OF pr]
  have dtop: "distinct ?top" using r(1) by simp
  have stop: "set ?top \<subseteq> {..<?n}" using r(2) set_drop_subset[of ?kth ?r] by auto
  have ltop: "length ?top = k" using r(3) k by simp
  from srt have po: "mset ?ord = mset [0..<length ?vals]"
    and so: "sorted_wrt (\<lambda>i j. xle (?vals ! i) (?vals ! j)) ?ord"
    unfolding argsort_ok_def by blast+
  have lv: "length ?vals = k" using ltop by simp
  note ord = perm_upt[OF po[unfolded lv]]
  have ti: "top_indices np sims k = map (\<lambda>p. ?top ! p) ?ord"
    by (simp add: top_indices_def Let_def)
  have inj: "inj_on (\<lambda>p. ?top ! p) (set ?ord)"
    unfolding ord(2) by (rule inj_on_nth[OF dtop]) (simp only: ltop lessThan_iff ball_simps, blast)
  show "distinct (top_indices np sims k)"
    unfolding ti using ord(1) inj by (simp add: distinct_map)
  have img: "(\<lambda>p. ?top ! p) ` set ?ord = set ?top"
    unfolding ord(2) using ltop by (auto simp: set_conv_nth image_iff) 
  show seteq: "set (top_indices np sims k) = set ?top"
    unfolding ti using img by simp
  show "set (top_indices np sims k) \<subseteq> {..<length sims}"
    using seteq stop by simp
  show "length (top_indices np sims k) = k" unfolding ti using ord(3) by simp
  have "sorted_wrt (\<lambda>i j. xle (sims ! (?top ! j)) (sims ! (?top ! i))) ?ord"
  proof (rule sorted_wrt_mono_rel[OF _ so])
    fix i j assume "i \<in> set ?ord" "j \<in> set ?ord" "xle (?vals ! i) (?vals ! j)"
    then have "i < k" "j < k" "xle (?vals ! i) (?vals ! j)" using ord(2) by auto
    then show "xle (sims ! (?top ! j)) (sims ! (?top ! i))"
      using ltop by (simp add: xle_xneg)
  qed
  then show "sorted_wrt (\<lambda>p q. xle (sims ! q) (sims ! p)) (top_indices np sims k)"
    unfolding ti by (simp add: sorted_wrt_map)
qed

lemma below_mono: "\<not> below a m \<Longrightarrow> xle a b \<Longrightarrow> \<not> below b m"
  by (cases m) (auto intro: xle_trans)

lemma below_MInf: "below MInf m \<longleftrightarrow> (\<exists>x. m = Num x \<and> x \<noteq> MInf)"
  by (cases m; cases "case m of Num x \<Rightarrow> x | NaN \<Rightarrow> MInf") auto

lemma xle_MInf: "xle a MInf \<longleftrightarrow> a = MInf"
  by (cases a) auto

lemma keep_pairs_length: "length (keep_pairs m sims gidx tops) \<le> length tops"
  by (induction tops) auto

lemma keep_pairs_set:
  "set (keep_pairs m sims gidx tops)
     = {(gidx ! jj, sims ! jj) | jj. jj \<in> set tops \<and> \<not> below (sims ! jj) m}"
  by (induction tops) auto

lemma keep_pairs_distinct:
  "distinct tops \<Longrightarrow> inj_on (\<lambda>jj. gidx ! jj) (set tops) \<Longrightarrow>
   distinct (map fst (keep_pairs m sims gidx tops))"
proof (induction tops)
  case Nil show ?case by simp
next
  case (Cons jj rest)
  have "gidx ! jj \<notin> fst ` set (keep_pairs m sims gidx rest)"
  proof
    assume "gidx ! jj \<in> fst ` set (keep_pairs m sims gidx rest)"
    then obtain jj' where "jj' \<in> set rest" "gidx ! jj' = gidx ! jj"
      unfolding keep_pairs_set by force
    with Cons.prems show False by (auto simp: inj_on_def)
  qed
  moreover have "distinct (map fst (keep_pairs m sims gidx rest))"
    using Cons by (auto simp: inj_on_def)
  ultimately show ?case by auto
qed

lemma keep_pairs_sorted:
  "sorted_wrt (\<lambda>p q. xle (sims ! q) (sims ! p)) tops \<Longrightarrow>
   sorted_wrt (\<lambda>a b. xle (snd b) (snd a)) (keep_pairs m sims gidx tops)"
proof (induction tops)
  case Nil show ?case by simp
next
  case (Cons jj rest)
  have IH: "sorted_wrt (\<lambda>a b. xle (snd b) (snd a)) (keep_pairs m sims gidx rest)"
    using Cons by simp
  have "xle (snd b) (sims ! jj)" if "b \<in> set (keep_pairs m sims gidx rest)" for b
  proof -
    from that obtain jj' where b: "b = (gidx ! jj', sims ! jj')" "jj' \<in> set rest"
      unfolding keep_pairs_set by auto
    with Cons.prems show ?thesis by auto
  qed
  with IH show ?case by auto
qed

lemma top_indices_complete:
  assumes ap: "argpartition_ok (argpartition np)" and srt: "argsort_ok (argsort np)"
    and k: "0 < k" "k \<le> length sims"
    and j: "j < length sims" "j \<notin> set (top_indices np sims k)"
    and t: "t \<in> set (top_indices np sims k)"
  shows "xle (sims ! j) (sims ! t)"
proof -
  let ?n = "length sims"
  let ?kth = "?n - k"
  let ?r = "argpartition np sims ?kth"
  have kth: "?kth < ?n" using k by simp
  from ap kth have pr: "mset ?r = mset [0..<?n]"
    and lo: "\<forall>p < ?kth. xle (sims ! (?r ! p)) (sims ! (?r ! ?kth))"
    and hi: "\<forall>p < ?n. ?kth < p \<longrightarrow> xle (sims ! (?r ! ?kth)) (sims ! (?r ! p))"
    unfolding argpartition_ok_def by blast+
  note r = perm_upt[OF pr]
  note seteq = top_indices_props(5)[OF ap srt k]
  from j(1) r(2) have "j \<in> set ?r" by simp
  then obtain p where p: "p < ?n" "?r ! p = j" using r(3) by (auto simp: in_set_conv_nth)
  have "p < ?kth"
  proof (rule ccontr)
    assume "\<not> p < ?kth"
    then have "?r ! p \<in> set (drop ?kth ?r)"
      using p(1) r(3) by (auto simp: in_set_conv_nth intro!: exI[of _ "p - ?kth"])
    with j(2) p(2) seteq show False by simp
  qed
  with lo p(2) have a: "xle (sims ! j) (sims ! (?r ! ?kth))" by auto
  from t seteq obtain q where q: "q < ?n - ?kth" "drop ?kth ?r ! q = t"
    using r(3) by (auto simp: in_set_conv_nth)
  then have tq: "t = ?r ! (?kth + q)" "?kth + q < ?n" using r(3) by auto
  have "xle (sims ! (?r ! ?kth)) (sims ! t)"
  proof (cases "q = 0")
    case True then show ?thesis using tq by (simp add: xle_refl)
  next
    case False
    then have "?kth < ?kth + q" by simp
    with hi tq show ?thesis by blast
  qed
  with a show ?thesis by (rule xle_trans)
qed

text \<open>The masked entry is the only minimum of its row, so it is selected only when the
  whole row is.\<close>

lemma top_indices_skip_min:
  assumes ap: "argpartition_ok (argpartition np)" and srt: "argsort_ok (argsort np)"
    and k: "0 < k" "k < length sims"
    and p: "p < length sims" "sims ! p = MInf"
    and others: "\<And>t. t < length sims \<Longrightarrow> t \<noteq> p \<Longrightarrow> sims ! t \<noteq> MInf"
  shows "p \<notin> set (top_indices np sims k)"
proof
  assume mem: "p \<in> set (top_indices np sims k)"
  let ?n = "length sims"
  let ?kth = "?n - k"
  let ?r = "argpartition np sims ?kth"
  have kth: "?kth < ?n" "0 < ?kth" using k by simp_all
  from ap kth(1) have pr: "mset ?r = mset [0..<?n]"
    and lo: "\<forall>q < ?kth. xle (sims ! (?r ! q)) (sims ! (?r ! ?kth))"
    and hi: "\<forall>q < ?n. ?kth < q \<longrightarrow> xle (sims ! (?r ! ?kth)) (sims ! (?r ! q))"
    unfolding argpartition_ok_def by blast+
  note r = perm_upt[OF pr]
  have k': "0 < k" "k \<le> ?n" using k by simp_all
  note seteq = top_indices_props(5)[OF ap srt k']
  from mem seteq obtain q where q: "q < ?n - ?kth" "drop ?kth ?r ! q = p"
    using r(3) by (auto simp: in_set_conv_nth)
  then have pq: "p = ?r ! (?kth + q)" "?kth + q < ?n" using r(3) by auto
  have "xle (sims ! (?r ! ?kth)) (sims ! p)"
  proof (cases "q = 0")
    case True then show ?thesis using pq by (simp add: xle_refl)
  next
    case False
    then have "?kth < ?kth + q" by simp
    with hi pq show ?thesis by blast
  qed
  then have "sims ! (?r ! ?kth) = MInf" using p(2) by (simp add: xle_MInf)
  with lo kth(2) have "sims ! (?r ! 0) = MInf" by (metis xle_MInf)
  moreover have "?r ! 0 < ?n" using r(2,3) kth(1) by (metis lessThan_iff nth_mem less_nat_zero_code neq0_conv not_less_zero length_greater_0_conv less_trans)
  ultimately have "?r ! 0 = p" using others by blast
  with pq(1) have "?r ! 0 = ?r ! (?kth + q)" by simp
  moreover have "0 < ?kth + q" using kth(2) by simp
  ultimately show False using r(1,3) pq(2) by (metis nth_eq_iff_index_eq less_trans not_less_iff_gr_or_eq)
qed

text \<open>One row, all rows as candidates.\<close>

lemma neigh_row_all_props:
  assumes ap: "argpartition_ok (argpartition np)" and srt: "argsort_ok (argsort np)"
    and i: "i < length X"
  shows "length (neigh_row_all np X top_k min_sim i) \<le> nat top_k
    \<and> (\<forall>(j, s) \<in> set (neigh_row_all np X top_k min_sim i).
            j \<noteq> i \<and> j < length X \<and> s = Fin (cos_sim X i j) \<and> \<not> below s min_sim)
    \<and> distinct (map fst (neigh_row_all np X top_k min_sim i))
    \<and> sorted_wrt (\<lambda>a b. xle (snd b) (snd a)) (neigh_row_all np X top_k min_sim i)"
proof (cases "min top_k (int (length X) - 1) > 0")
  case False
  have e: "neigh_row_all np X top_k min_sim i = []"
    by (simp only: neigh_row_all_def Let_def False if_False)
  show ?thesis unfolding e by simp
next
  case True
  let ?N = "length X"
  let ?sims = "(map (\<lambda>j. Fin (cos_sim X i j)) [0..<?N])[i := MInf]"
  let ?k = "min top_k (int ?N - 1)"
  let ?row = "neigh_row_all np X top_k min_sim i"
  let ?tops = "top_indices np ?sims (nat ?k)"
  have row: "?row = keep_pairs min_sim ?sims [0..<?N] ?tops"
    by (simp only: neigh_row_all_def Let_def True if_True)
  have k: "0 < nat ?k" "nat ?k \<le> length ?sims" using True by auto
  have klt: "nat ?k < length ?sims" using True i by auto
  note tp = top_indices_props[OF ap srt k]
  have self: "i \<notin> set ?tops"
    by (rule top_indices_skip_min[OF ap srt k(1) klt]) (use i in \<open>auto simp: nth_list_update\<close>)
  have "length ?row \<le> nat ?k"
    unfolding row using keep_pairs_length[of min_sim ?sims "[0..<?N]" ?tops] tp(3) by simp
  then have c1: "length ?row \<le> nat top_k" by simp
  have c2: "\<forall>(j, s) \<in> set ?row. j \<noteq> i \<and> j < ?N \<and> s = Fin (cos_sim X i j) \<and> \<not> below s min_sim"
  proof (clarify)
    fix j s assume "(j, s) \<in> set ?row"
    then obtain jj where jj: "jj \<in> set ?tops" "s = ?sims ! jj" "\<not> below (?sims ! jj) min_sim"
        "j = [0..<?N] ! jj"
      unfolding row keep_pairs_set by auto
    from jj(1) tp(2) have lt: "jj < ?N" by auto
    with jj(4) have jeq: "j = jj" by simp
    from jj(1) self have ne: "jj \<noteq> i" by auto
    with jj(2) lt have "s = Fin (cos_sim X i jj)" by (simp add: nth_list_update)
    with jeq lt ne jj(2,3)
    show "j \<noteq> i \<and> j < ?N \<and> s = Fin (cos_sim X i j) \<and> \<not> below s min_sim" by simp
  qed
  have "inj_on (\<lambda>jj. [0..<?N] ! jj) (set ?tops)"
    by (rule inj_on_nth[OF distinct_upt]) (use tp(2) in auto)
  then have c3: "distinct (map fst ?row)" unfolding row by (rule keep_pairs_distinct[OF tp(1)])
  have c4: "sorted_wrt (\<lambda>a b. xle (snd b) (snd a)) ?row"
    unfolding row by (rule keep_pairs_sorted[OF tp(4)])
  from c1 c2 c3 c4 show ?thesis by blast
qed

lemma cluster_indices_props:
  "distinct (cluster_indices cids c)"
  "set (cluster_indices cids c) = {idx. idx < length cids \<and> cids ! idx = c}"
  by (auto simp: cluster_indices_def)

text \<open>One row, the members of its cluster as candidates.  The row counts itself among
  the candidates (\<open>k_eff = min(top_k, sims.size)\<close>), so the masked entry is selected when
  \<open>top_k\<close> reaches the size of the cluster, and only the floor can still remove it.\<close>

lemma neigh_row_cluster_props:
  assumes ap: "argpartition_ok (argpartition np)" and srt: "argsort_ok (argsort np)"
  shows "length (neigh_row_cluster np X cids top_k min_sim i) \<le> nat top_k
    \<and> (\<forall>(j, s) \<in> set (neigh_row_cluster np X cids top_k min_sim i).
            j < length cids \<and> cids ! j = cids ! i \<and> \<not> below s min_sim
          \<and> (j \<noteq> i \<longrightarrow> s = Fin (cos_sim X i j))
          \<and> (j = i \<longrightarrow> s = MInf \<and> int (length (cluster_indices cids (cids ! i))) \<le> top_k))
    \<and> distinct (map fst (neigh_row_cluster np X cids top_k min_sim i))
    \<and> sorted_wrt (\<lambda>a b. xle (snd b) (snd a)) (neigh_row_cluster np X cids top_k min_sim i)"
proof (cases "min top_k (int (length (map (\<lambda>g. if g = i then MInf else Fin (cos_sim X i g))
                  (cluster_indices cids (cids ! i))))) > 0")
  case False
  have e: "neigh_row_cluster np X cids top_k min_sim i = []"
    by (simp only: neigh_row_cluster_def Let_def False if_False)
  show ?thesis unfolding e by simp
next
  case True
  let ?ind = "cluster_indices cids (cids ! i)"
  let ?sims = "map (\<lambda>g. if g = i then MInf else Fin (cos_sim X i g)) ?ind"
  let ?k = "min top_k (int (length ?sims))"
  let ?row = "neigh_row_cluster np X cids top_k min_sim i"
  let ?tops = "top_indices np ?sims (nat ?k)"
  have row: "?row = keep_pairs min_sim ?sims ?ind ?tops"
    by (simp only: neigh_row_cluster_def Let_def True if_True)
  have k: "0 < nat ?k" "nat ?k \<le> length ?sims" using True by auto
  note tp = top_indices_props[OF ap srt k]
  have "length ?row \<le> nat ?k"
    unfolding row using keep_pairs_length[of min_sim ?sims ?ind ?tops] tp(3) by simp
  then have c1: "length ?row \<le> nat top_k" by simp
  have c2: "\<forall>(j, s) \<in> set ?row. j < length cids \<and> cids ! j = cids ! i \<and> \<not> below s min_sim
          \<and> (j \<noteq> i \<longrightarrow> s = Fin (cos_sim X i j))
          \<and> (j = i \<longrightarrow> s = MInf \<and> int (length ?ind) \<le> top_k)"
  proof (clarify)
    fix j s assume "(j, s) \<in> set ?row"
    then obtain jj where jj: "jj \<in> set ?tops" "s = ?sims ! jj" "\<not> below (?sims ! jj) min_sim"
        "j = ?ind ! jj"
      unfolding row keep_pairs_set by auto
    from jj(1) tp(2) have lt: "jj < length ?ind" by auto
    then have "?ind ! jj \<in> set ?ind" by simp
    then have mem: "j < length cids" "cids ! j = cids ! i"
      unfolding jj(4) cluster_indices_props(2) by auto
    have val: "s = (if j = i then MInf else Fin (cos_sim X i j))"
      using jj(2,4) lt by simp
    have size: "int (length ?ind) \<le> top_k" if "j = i"
    proof (rule ccontr)
      assume "\<not> int (length ?ind) \<le> top_k"
      then have klt: "nat ?k < length ?sims" using True by auto
      have "jj \<notin> set ?tops"
      proof (rule top_indices_skip_min[OF ap srt k(1) klt])
        show "jj < length ?sims" using lt by simp
        show "?sims ! jj = MInf" using that jj(4) lt by simp
        fix t assume t: "t < length ?sims" "t \<noteq> jj"
        then have "?ind ! t \<noteq> ?ind ! jj"
          using lt cluster_indices_props(1)[of cids "cids ! i"] by (simp add: nth_eq_iff_index_eq)
        then show "?sims ! t \<noteq> MInf" using t(1) that jj(4) by simp
      qed
      with jj(1) show False by simp
    qed
    have nb: "\<not> below s min_sim" using jj(2,3) by simp
    from mem nb val size
    show "j < length cids \<and> cids ! j = cids ! i \<and> \<not> below s min_sim
          \<and> (j \<noteq> i \<longrightarrow> s = Fin (cos_sim X i j))
          \<and> (j = i \<longrightarrow> s = MInf \<and> int (length ?ind) \<le> top_k)"
      by simp
  qed
  have "inj_on (\<lambda>jj. ?ind ! jj) (set ?tops)"
    by (rule inj_on_nth[OF cluster_indices_props(1)]) (use tp(2) in auto)
  then have c3: "distinct (map fst ?row)" unfolding row by (rule keep_pairs_distinct[OF tp(1)])
  have c4: "sorted_wrt (\<lambda>a b. xle (snd b) (snd a)) ?row"
    unfolding row by (rule keep_pairs_sorted[OF tp(4)])
  from c1 c2 c3 c4 show ?thesis by blast
qed

lemma keep_pairs_all:
  "(\<And>jj. jj \<in> set tops \<Longrightarrow> \<not> below (sims ! jj) m) \<Longrightarrow>
   length (keep_pairs m sims gidx tops) = length tops"
  by (induction tops) auto

lemma row_complete:
  assumes ap: "argpartition_ok (argpartition np)" and srt: "argsort_ok (argsort np)"
    and k: "0 < k" "k \<le> length sims"
    and jj: "jj < length sims" "sims ! jj = Fin s" "\<not> below (Fin s) m"
    and out: "gidx ! jj \<notin> fst ` set (keep_pairs m sims gidx (top_indices np sims k))"
  shows "length (keep_pairs m sims gidx (top_indices np sims k)) = k"
    and "\<forall>(j', s') \<in> set (keep_pairs m sims gidx (top_indices np sims k)). xle (Fin s) s'"
    and "set (top_indices np sims k) \<subseteq> {t. t < length sims \<and> t \<noteq> jj \<and> sims ! t \<noteq> MInf}"
proof -
  let ?tops = "top_indices np sims k"
  note tp = top_indices_props[OF ap srt k]
  have notin: "jj \<notin> set ?tops"
  proof
    assume "jj \<in> set ?tops"
    with jj(2,3) have "(gidx ! jj, sims ! jj) \<in> set (keep_pairs m sims gidx ?tops)"
      unfolding keep_pairs_set by auto
    with out show False by force
  qed
  have big: "xle (Fin s) (sims ! t)" if "t \<in> set ?tops" for t
    using top_indices_complete[OF ap srt k jj(1) notin that] jj(2) by simp
  have "length (keep_pairs m sims gidx ?tops) = length ?tops"
    by (rule keep_pairs_all) (use big jj(3) below_mono in blast)
  then show "length (keep_pairs m sims gidx ?tops) = k" using tp(3) by simp
  show "\<forall>(j', s') \<in> set (keep_pairs m sims gidx ?tops). xle (Fin s) s'"
    unfolding keep_pairs_set using big by fastforce
  have "sims ! t \<noteq> MInf" if "t \<in> set ?tops" for t
    using big[OF that] by (cases "sims ! t") auto
  then show "set ?tops \<subseteq> {t. t < length sims \<and> t \<noteq> jj \<and> sims ! t \<noteq> MInf}"
    using tp(2) notin by fastforce
qed

lemma card_bound:
  assumes "distinct tops" "set tops \<subseteq> {t. t < n \<and> t \<notin> A}" "A \<subseteq> {..<n}" "finite A"
  shows "length tops + card A \<le> n"
proof -
  have "set tops \<inter> A = {}" using assms(2) by auto
  moreover have "set tops \<union> A \<subseteq> {..<n}" using assms(2,3) by auto
  then have "card (set tops \<union> A) \<le> n" by (metis card_lessThan card_mono finite_lessThan)
  ultimately show ?thesis using assms(1,4) by (simp add: card_Un_disjoint distinct_card)
qed

lemma neigh_row_all_complete:
  assumes ap: "argpartition_ok (argpartition np)" and srt: "argsort_ok (argsort np)"
    and i: "i < length X" and j: "j < length X" "j \<noteq> i" "\<not> below (Fin (cos_sim X i j)) min_sim"
    and out: "j \<notin> fst ` set (neigh_row_all np X top_k min_sim i)"
  shows "length (neigh_row_all np X top_k min_sim i) = nat top_k
    \<and> (\<forall>(j', s') \<in> set (neigh_row_all np X top_k min_sim i). xle (Fin (cos_sim X i j)) s')"
proof (cases "min top_k (int (length X) - 1) > 0")
  case False
  have e: "neigh_row_all np X top_k min_sim i = []"
    by (simp only: neigh_row_all_def Let_def False if_False)
  have "2 \<le> length X" using i j by linarith
  with False have "top_k \<le> 0" by (simp add: min_def split: if_splits)
  then show ?thesis unfolding e by simp
next
  case True
  let ?N = "length X"
  let ?sims = "(map (\<lambda>j. Fin (cos_sim X i j)) [0..<?N])[i := MInf]"
  let ?k = "min top_k (int ?N - 1)"
  let ?row = "neigh_row_all np X top_k min_sim i"
  let ?tops = "top_indices np ?sims (nat ?k)"
  have row: "?row = keep_pairs min_sim ?sims [0..<?N] ?tops"
    by (simp only: neigh_row_all_def Let_def True if_True)
  have k: "0 < nat ?k" "nat ?k \<le> length ?sims" using True by auto
  have jl: "j < length ?sims" using j(1) by simp
  have js: "?sims ! j = Fin (cos_sim X i j)" using j(1,2) by simp
  have out': "[0..<?N] ! j \<notin> fst ` set (keep_pairs min_sim ?sims [0..<?N] ?tops)"
    using out j(1) unfolding row by simp
  note rc = row_complete[OF ap srt k jl js j(3) out']
  note tp = top_indices_props[OF ap srt k]
  have "set ?tops \<subseteq> {t. t < ?N \<and> t \<notin> {i, j}}"
    using rc(3) i by (auto simp: nth_list_update)
  from card_bound[OF tp(1) this] i j(1,2) have "length ?tops + 2 \<le> ?N" by simp
  then have "nat ?k + 2 \<le> ?N" using tp(3) by simp
  then have "nat ?k = nat top_k" by (simp add: min_def split: if_splits)
  then show ?thesis using rc(1,2) unfolding row by simp
qed

lemma neigh_row_cluster_complete:
  assumes ap: "argpartition_ok (argpartition np)" and srt: "argsort_ok (argsort np)"
    and i: "i < length cids" and j: "j < length cids" "j \<noteq> i" "cids ! j = cids ! i"
       "\<not> below (Fin (cos_sim X i j)) min_sim"
    and out: "j \<notin> fst ` set (neigh_row_cluster np X cids top_k min_sim i)"
  shows "length (neigh_row_cluster np X cids top_k min_sim i) = nat top_k
    \<and> (\<forall>(j', s') \<in> set (neigh_row_cluster np X cids top_k min_sim i). xle (Fin (cos_sim X i j)) s')"
proof -
  let ?ind = "cluster_indices cids (cids ! i)"
  let ?sims = "map (\<lambda>g. if g = i then MInf else Fin (cos_sim X i g)) ?ind"
  let ?k = "min top_k (int (length ?sims))"
  let ?row = "neigh_row_cluster np X cids top_k min_sim i"
  have jin: "j \<in> set ?ind" using j unfolding cluster_indices_props(2) by simp
  then obtain jj where jj: "jj < length ?ind" "?ind ! jj = j" by (auto simp: in_set_conv_nth)
  show ?thesis
  proof (cases "?k > 0")
    case False
    have e: "?row = []"
      by (simp only: neigh_row_cluster_def Let_def False if_False)
    from jj(1) False have "top_k \<le> 0" by (simp add: min_def split: if_splits)
    then show ?thesis unfolding e by simp
  next
    case True
    let ?tops = "top_indices np ?sims (nat ?k)"
    have row: "?row = keep_pairs min_sim ?sims ?ind ?tops"
      by (simp only: neigh_row_cluster_def Let_def True if_True)
    have k: "0 < nat ?k" "nat ?k \<le> length ?sims" using True by auto
    have jl: "jj < length ?sims" using jj(1) by simp
    have js: "?sims ! jj = Fin (cos_sim X i j)" using jj j(2) by simp
    have out': "?ind ! jj \<notin> fst ` set (keep_pairs min_sim ?sims ?ind ?tops)"
      using out jj(2) unfolding row by simp
    note rc = row_complete[OF ap srt k jl js j(4) out']
    note tp = top_indices_props[OF ap srt k]
    have "set ?tops \<subseteq> {t. t < length ?sims \<and> t \<notin> {jj}}" using rc(3) by auto
    from card_bound[OF tp(1) this] jl have "length ?tops + 1 \<le> length ?sims" by simp
    then have "nat ?k + 1 \<le> length ?sims" using tp(3) by simp
    then have "nat ?k = nat top_k" by (simp add: min_def split: if_splits)
    then show ?thesis using rc(1,2) unfolding row by simp
  qed
qed

lemma mset_xinsort: "mset (xinsort a i js) = add_mset i (mset js)"
  by (induction js) auto

lemma set_xinsort: "set (xinsort a i js) = insert i (set js)"
  by (induction js) auto

lemma sorted_xinsort:
  "sorted_wrt (\<lambda>i j. xle (a ! i) (a ! j)) js \<Longrightarrow>
   sorted_wrt (\<lambda>i j. xle (a ! i) (a ! j)) (xinsort a i js)"
proof (induction js)
  case Nil show ?case by simp
next
  case (Cons j js)
  show ?case
  proof (cases "xle (a ! i) (a ! j)")
    case True
    then have "xle (a ! i) (a ! x)" if "x \<in> set js" for x
      using Cons.prems that by (auto intro: xle_trans)
    with True Cons.prems show ?thesis by auto
  next
    case False
    then have "xle (a ! j) (a ! i)" using xle_total by blast
    with False Cons show ?thesis by (auto simp: set_xinsort)
  qed
qed

lemma foldr_xinsort:
  "mset (foldr (xinsort a) xs []) = mset xs"
  "sorted_wrt (\<lambda>i j. xle (a ! i) (a ! j)) (foldr (xinsort a) xs [])"
  by (induction xs) (auto simp: mset_xinsort sorted_xinsort)

lemma argsort_stable_ok: "argsort_ok argsort_stable"
  unfolding argsort_ok_def argsort_stable_def by (simp add: foldr_xinsort)

lemma argpartition_rev_ok: "argpartition_ok argpartition_rev"
  unfolding argpartition_ok_def
proof (intro allI impI conjI)
  fix a :: "xreal list" and kth
  assume kth: "kth < length a"
  let ?r = "argpartition_rev a kth"
  show m: "mset ?r = mset [0..<length a]"
    unfolding argpartition_rev_def by (simp add: foldr_xinsort(1))
  have len: "length ?r = length a" using perm_upt(3)[OF m] .
  have s: "sorted_wrt (\<lambda>i j. xle (a ! i) (a ! j)) ?r"
    unfolding argpartition_rev_def by (rule foldr_xinsort(2))
  show "xle (a ! (?r ! p)) (a ! (?r ! kth))" if "p < kth" for p
    using sorted_wrt_nth_less[OF s that] kth len by simp
  show "xle (a ! (?r ! kth)) (a ! (?r ! p))" if "p < length a" "kth < p" for p
    using sorted_wrt_nth_less[OF s that(2)] that(1) len by simp
qed

lemma ex_part3:
  "argpartition_rev [Fin (4/5), Fin (4/5), Fin (3/5), MInf] kth = [3, 2, 1, 0]"
  by (simp add: argpartition_rev_def upt_rec numeral_2_eq_2 numeral_3_eq_3)

lemma ex_sort2: "argsort_stable [Fin (- (4/5)), Fin (- (4/5))] = [0, 1]"
  by (simp add: argsort_stable_def upt_rec numeral_2_eq_2)

lemma ex_sims3:
  "(map (\<lambda>j. Fin (cos_sim example_X 3 j)) [0..<length example_X])[3 := MInf]
     = [Fin (4/5), Fin (4/5), Fin (3/5), MInf]"
  by (simp add: example_X_def cos_sim_def dot_def upt_rec numeral_3_eq_3)

lemma ex_top3: "top_indices example_np [Fin (4/5), Fin (4/5), Fin (3/5), MInf] 2 = [1, 0]"
  by (simp add: top_indices_def example_np_def ex_part3 ex_sort2 Let_def)

lemma ex_row3:
  "neigh_row_all example_np example_X 2 (Num (Fin (1/2))) 3 = [(1, Fin (4/5)), (0, Fin (4/5))]"
proof -
  have l: "length example_X = 4" by (simp add: example_X_def)
  have k: "min (2::int) (int (length example_X) - 1) = 2" by (simp add: l)
  show ?thesis
    unfolding neigh_row_all_def Let_def ex_sims3 k
    by (simp add: ex_top3 l upt_rec)
qed

lemma neighbors_nth:
  "1 < length X \<Longrightarrow> i < length X \<Longrightarrow>
   neighbors np X cids top_k min_sim sco ! i
     = (if sco then neigh_row_cluster np X cids top_k min_sim i
        else neigh_row_all np X top_k min_sim i)"
  by (simp add: neighbors_def Let_def)

lemma ex_nb3:
  "neighbors example_np example_X [0, 0, 0, 0] 2 (Num (Fin (1/2))) False ! 3
     = [(1, Fin (4/5)), (0, Fin (4/5))]"
proof -
  have "1 < length example_X" "3 < length example_X" by (simp_all add: example_X_def)
  from neighbors_nth[OF this] show ?thesis by (simp add: ex_row3)
qed

text \<open>
  The same row restricted to its cluster (all four rows), with \<open>top_k = 4\<close> and the floor
  \<open>-inf\<close>: the masked entry is among the four selected, \<open>-inf < -inf\<close> is false, and the row
  lists itself with similarity \<open>-inf\<close>.
\<close>

lemma ex_sort4: "argsort_stable [PInf, Fin (- (3/5)), Fin (- (4/5)), Fin (- (4/5))] = [2, 3, 1, 0]"
  by (simp add: argsort_stable_def upt_rec numeral_2_eq_2 numeral_3_eq_3)

lemma ex_top4: "top_indices example_np [Fin (4/5), Fin (4/5), Fin (3/5), MInf] 4 = [1, 0, 2, 3]"
  by (simp add: top_indices_def example_np_def ex_part3 ex_sort4 Let_def)

lemma ex_cluster_sims3:
  "map (\<lambda>g. if g = 3 then MInf else Fin (cos_sim example_X 3 g)) (cluster_indices [0, 0, 0, 0] 0)
     = [Fin (4/5), Fin (4/5), Fin (3/5), MInf]"
  by (simp add: cluster_indices_def example_X_def cos_sim_def dot_def upt_rec numeral_3_eq_3)

lemma neigh_row_cluster_self_pair:
  "neigh_row_cluster example_np example_X [0, 0, 0, 0] 4 (Num MInf) 3
     = [(1, Fin (4/5)), (0, Fin (4/5)), (2, Fin (3/5)), (3, MInf)]"
proof -
  have c: "[0, 0, 0, 0::int] ! 3 = 0" by simp
  have i: "cluster_indices [0, 0, 0, 0] 0 = [0, 1, 2, 3]"
    by (simp add: cluster_indices_def upt_rec numeral_3_eq_3)
  have k: "min (4::int) (int (length [Fin (4/5), Fin (4/5), Fin (3/5), MInf])) = 4" by simp
  show ?thesis
    unfolding neigh_row_cluster_def Let_def c ex_cluster_sims3 k
    by (simp add: ex_top4 i)
qed

text \<open>
  Claim C3, without the tie-break.  With library functions that meet NumPy's contract, the
  builder returns one list per row, and none when there is at most one row.  The list of
  row \<open>i\<close> has at most \<open>top_k\<close> entries, every one of them a row (of the same cluster when
  restricted) whose similarity is not below \<open>min_sim\<close>, no row twice, in descending order
  of similarity; the similarity of another row is its dot product with row \<open>i\<close>.  Row \<open>i\<close>
  is never in its own list when all rows are candidates, nor when \<open>min_sim\<close> is a number
  above \<open>-inf\<close>; an entry for \<open>i\<close> itself can only be the masked one, in a cluster of no
  more than \<open>top_k\<close> rows.  Nothing is padded: a qualifying row is left out only when the
  list already holds \<open>top_k\<close> entries, all at least as similar.
\<close>

theorem neighbors_top_k:
  assumes ap: "argpartition_ok (argpartition np)" and srt: "argsort_ok (argsort np)"
    and len: "length cids = length X"
  shows "length (neighbors np X cids top_k min_sim sco) = length X
    \<and> (length X \<le> 1 \<longrightarrow> neighbors np X cids top_k min_sim sco = replicate (length X) [])
    \<and> (\<forall>i < length X.
          length (neighbors np X cids top_k min_sim sco ! i) \<le> nat top_k
        \<and> (\<forall>(j, s) \<in> set (neighbors np X cids top_k min_sim sco ! i).
               j < length X \<and> \<not> below s min_sim \<and> (sco \<longrightarrow> cids ! j = cids ! i)
             \<and> (j \<noteq> i \<longrightarrow> s = Fin (cos_sim X i j))
             \<and> (j = i \<longrightarrow> sco \<and> s = MInf
                   \<and> int (length (cluster_indices cids (cids ! i))) \<le> top_k))
        \<and> (\<not> sco \<or> (\<exists>m. min_sim = Num m \<and> m \<noteq> MInf)
             \<longrightarrow> i \<notin> fst ` set (neighbors np X cids top_k min_sim sco ! i))
        \<and> distinct (map fst (neighbors np X cids top_k min_sim sco ! i))
        \<and> sorted_wrt (\<lambda>a b. xle (snd b) (snd a)) (neighbors np X cids top_k min_sim sco ! i)
        \<and> (\<forall>j < length X.
               j \<noteq> i \<and> \<not> below (Fin (cos_sim X i j)) min_sim \<and> (sco \<longrightarrow> cids ! j = cids ! i)
               \<and> j \<notin> fst ` set (neighbors np X cids top_k min_sim sco ! i)
               \<longrightarrow> length (neighbors np X cids top_k min_sim sco ! i) = nat top_k
                 \<and> (\<forall>(j', s') \<in> set (neighbors np X cids top_k min_sim sco ! i).
                        xle (Fin (cos_sim X i j)) s')))"
proof (intro conjI allI impI)
  show "length (neighbors np X cids top_k min_sim sco) = length X"
    by (simp add: neighbors_def Let_def)
  show "neighbors np X cids top_k min_sim sco = replicate (length X) []" if "length X \<le> 1"
    using that by (simp add: neighbors_def Let_def)
next
  fix i assume i: "i < length X"
  let ?row = "neighbors np X cids top_k min_sim sco ! i"
  have row: "?row = (if 1 < length X
                     then (if sco then neigh_row_cluster np X cids top_k min_sim i
                           else neigh_row_all np X top_k min_sim i)
                     else [])"
    using i by (simp add: neighbors_def Let_def)
  note a = neigh_row_all_props[OF ap srt i, of top_k min_sim]
  note c = neigh_row_cluster_props[OF ap srt, of X cids top_k min_sim i]
  show "length ?row \<le> nat top_k" unfolding row using a c by simp
  show entries: "\<forall>(j, s) \<in> set ?row.
               j < length X \<and> \<not> below s min_sim \<and> (sco \<longrightarrow> cids ! j = cids ! i)
             \<and> (j \<noteq> i \<longrightarrow> s = Fin (cos_sim X i j))
             \<and> (j = i \<longrightarrow> sco \<and> s = MInf
                   \<and> int (length (cluster_indices cids (cids ! i))) \<le> top_k)"
    unfolding row using a c len by (auto split: if_splits)
  show "i \<notin> fst ` set ?row" if h: "\<not> sco \<or> (\<exists>m. min_sim = Num m \<and> m \<noteq> MInf)"
  proof
    assume "i \<in> fst ` set ?row"
    then obtain s where m: "(i, s) \<in> set ?row" by auto
    with entries have "sco" "s = MInf" "\<not> below s min_sim" by auto
    with h show False by (auto simp: below_MInf)
  qed
  show "distinct (map fst ?row)" unfolding row using a c by simp
  show "sorted_wrt (\<lambda>a b. xle (snd b) (snd a)) ?row" unfolding row using a c by simp
  fix j assume j: "j < length X"
    and q: "j \<noteq> i \<and> \<not> below (Fin (cos_sim X i j)) min_sim \<and> (sco \<longrightarrow> cids ! j = cids ! i)
            \<and> j \<notin> fst ` set ?row"
  have big: "1 < length X" using i j q by linarith
  have r: "length ?row = nat top_k \<and> (\<forall>(j', s') \<in> set ?row. xle (Fin (cos_sim X i j)) s')"
  proof (cases sco)
    case True
    have e: "?row = neigh_row_cluster np X cids top_k min_sim i"
      unfolding row using big True by simp
    show ?thesis unfolding e
      by (rule neigh_row_cluster_complete[OF ap srt]) (use i j q len True e in auto)
  next
    case False
    have e: "?row = neigh_row_all np X top_k min_sim i"
      unfolding row using big False by simp
    show ?thesis unfolding e
      by (rule neigh_row_all_complete[OF ap srt i j]) (use q e in auto)
  qed
  from r show "length ?row = nat top_k" by simp
  from r show "\<forall>(j', s') \<in> set ?row. xle (Fin (cos_sim X i j)) s'" by simp
qed

theorem neighbors_top_k_witness:
  "argpartition_ok (argpartition example_np) \<and> argsort_ok (argsort example_np)
   \<and> length [0, 0, 0, 0::int] = length example_X
   \<and> length (neighbors example_np example_X [0, 0, 0, 0] 2 (Num (Fin (1/2))) False) = length example_X
   \<and> neighbors example_np example_X [0, 0, 0, 0] 2 (Num (Fin (1/2))) False ! 3
       = [(1, Fin (4/5)), (0, Fin (4/5))]"
proof -
  have a: "argpartition_ok (argpartition example_np)"
    by (simp add: example_np_def argpartition_rev_ok)
  have s: "argsort_ok (argsort example_np)"
    by (simp add: example_np_def argsort_stable_ok)
  have l: "length [0, 0, 0, 0::int] = length example_X" by (simp add: example_X_def)
  from neighbors_top_k[OF a s l, of 2 "Num (Fin (1/2))" False] a s l ex_nb3 show ?thesis by blast
qed

text \<open>
  The tie-break of claim C3 fails: rows 0 and 1 are equally similar to row 3, and with
  library functions inside NumPy's contract row 1 is listed before row 0.
\<close>

theorem neighbors_tie_counterexample:
  "argpartition_ok (argpartition example_np) \<and> argsort_ok (argsort example_np)
   \<and> cos_sim example_X 3 0 = cos_sim example_X 3 1
   \<and> map fst (neighbors example_np example_X [0, 0, 0, 0] 2 (Num (Fin (1/2))) False ! 3) = [1, 0]"
proof -
  have a: "argpartition_ok (argpartition example_np)"
    by (simp add: example_np_def argpartition_rev_ok)
  have s: "argsort_ok (argsort example_np)"
    by (simp add: example_np_def argsort_stable_ok)
  have c: "cos_sim example_X 3 0 = cos_sim example_X 3 1"
    by (simp add: example_X_def cos_sim_def dot_def)
  have r: "map fst (neighbors example_np example_X [0, 0, 0, 0] 2 (Num (Fin (1/2))) False ! 3) = [1, 0]"
    by (simp add: ex_nb3)
  from a s c r show ?thesis by blast
qed

section \<open>Properties of the spanning tree\<close>

lemma grown_nonempty: "grown vs es \<Longrightarrow> vs \<noteq> []"
  by (induction rule: grown.induct) auto

lemma grown_length: "grown vs es \<Longrightarrow> Suc (length es) = length vs"
  by (induction rule: grown.induct) auto

lemma grown_distinct: "grown vs es \<Longrightarrow> distinct vs"
  by (induction rule: grown.induct) auto

lemma grown_endpoints:
  "grown vs es \<Longrightarrow> (a, b, w) \<in> set es \<Longrightarrow> a \<in> set vs \<and> b \<in> set vs \<and> a \<noteq> b"
  by (induction rule: grown.induct) auto

lemma adj_sym: "adj es a b \<Longrightarrow> adj es b a"
  by (auto simp: adj_def)

lemma adj_append_iff:
  "adj (es @ [(u, v, s)]) a b \<longleftrightarrow> adj es a b \<or> (a = u \<and> b = v) \<or> (a = v \<and> b = u)"
  by (auto simp: adj_def)

lemma grown_adj_in: "grown vs es \<Longrightarrow> adj es a b \<Longrightarrow> a \<in> set vs \<and> b \<in> set vs"
  by (auto simp: adj_def dest: grown_endpoints)

lemma conn_mono:
  "(a, b) \<in> {(x, y). adj es x y}\<^sup>* \<Longrightarrow> (a, b) \<in> {(x, y). adj (es @ es') x y}\<^sup>*"
proof -
  have "{(x, y). adj es x y} \<subseteq> {(x, y). adj (es @ es') x y}" by (auto simp: adj_def)
  then show "(a, b) \<in> {(x, y). adj es x y}\<^sup>* \<Longrightarrow> (a, b) \<in> {(x, y). adj (es @ es') x y}\<^sup>*"
    using rtrancl_mono by blast
qed

lemma conn_sym:
  "(a, b) \<in> {(x, y). adj es x y}\<^sup>* \<Longrightarrow> (b, a) \<in> {(x, y). adj es x y}\<^sup>*"
proof (induction rule: rtrancl_induct)
  case base show ?case by simp
next
  case (step y z)
  then have "(z, y) \<in> {(x, y). adj es x y}" by (auto dest: adj_sym)
  with step.IH show ?case by (meson converse_rtrancl_into_rtrancl)
qed

lemma grown_connected: "grown vs es \<Longrightarrow> connected_on es (set vs)"
proof (induction rule: grown.induct)
  case (grown_root r)
  show ?case by (simp add: connected_on_def)
next
  case (grown_step vs es u v s)
  let ?es = "es @ [(u, v, s)]"
  let ?R = "{(x, y). adj ?es x y}"
  have old: "(a, b) \<in> ?R\<^sup>*" if "a \<in> set vs" "b \<in> set vs" for a b
    using grown_step.IH that conn_mono[of a b es "[(u, v, s)]"] by (auto simp: connected_on_def)
  have uv: "(u, v) \<in> ?R" by (simp add: adj_append_iff)
  have to_v: "(a, v) \<in> ?R\<^sup>*" if "a \<in> set vs" for a
    using old[OF that grown_step.hyps(2)] uv by (meson rtrancl.rtrancl_into_rtrancl)
  have from_v: "(v, a) \<in> ?R\<^sup>*" if "a \<in> set vs" for a
    using to_v[OF that] by (rule conn_sym)
  show ?case
    unfolding connected_on_def using old to_v from_v by auto
qed

lemma pred_mod:
  assumes "i < n" "i \<noteq> 0"
  shows "(i + n - 1) mod n = i - (1::nat)"
proof -
  have "i + n - 1 = (i - 1) + n" using assms by simp
  then have "(i + n - 1) mod n = (i - 1) mod n" by simp
  also have "\<dots> = i - 1" using assms by simp
  finally show ?thesis .
qed

lemma cycle_neighbours:
  assumes "cycle_in es c" "i < length c"
  shows "\<exists>j k. j < length c \<and> k < length c \<and> j \<noteq> k \<and> adj es (c ! i) (c ! j) \<and> adj es (c ! k) (c ! i)"
proof -
  let ?n = "length c"
  from assms have n: "3 \<le> ?n" and a: "\<And>i. i < ?n \<Longrightarrow> adj es (c ! i) (c ! (Suc i mod ?n))"
    by (auto simp: cycle_in_def)
  let ?j = "Suc i mod ?n"
  let ?k = "(i + ?n - 1) mod ?n"
  have pos: "0 < ?n" using n by linarith
  have j: "?j < ?n" and k: "?k < ?n" by (rule mod_less_divisor[OF pos])+
  have sk: "Suc ?k mod ?n = i"
  proof (cases "i = 0")
    case True
    have "Suc (?n - 1) = ?n" using pos by simp
    then show ?thesis using True pos by simp
  next
    case False
    then show ?thesis using pred_mod[OF assms(2) False] assms(2) by simp
  qed
  have jk: "?j \<noteq> ?k"
  proof (cases "i = 0")
    case True then show ?thesis using n by simp
  next
    case False
    have k': "?k = i - 1" by (rule pred_mod[OF assms(2) False])
    show ?thesis
    proof (cases "Suc i = ?n")
      case True then show ?thesis using k' n by simp
    next
      case False
      then have "?j = Suc i" using assms(2) by simp
      then show ?thesis using k' \<open>i \<noteq> 0\<close> by simp
    qed
  qed
  from a[OF assms(2)] a[OF k] sk j k jk show ?thesis by metis
qed

lemma grown_acyclic: "grown vs es \<Longrightarrow> acyclic_edges es"
proof (induction rule: grown.induct)
  case (grown_root r)
  have "\<not> cycle_in [] c" for c
    by (auto simp: cycle_in_def adj_def intro!: exI[of _ 0])
  then show ?case by (simp add: acyclic_edges_def)
next
  case (grown_step vs es u v s)
  let ?es = "es @ [(u, v, s)]"
  from grown_step.IH have loops: "\<forall>(a, b, w) \<in> set es. a \<noteq> b"
    and keys: "distinct (map edge_key es)" and nocyc: "\<nexists>c. cycle_in es c"
    by (auto simp: acyclic_edges_def)
  have uv: "u \<noteq> v" using grown_step.hyps by auto
  have newkey: "edge_key (u, v, s) \<notin> edge_key ` set es"
  proof
    assume "edge_key (u, v, s) \<in> edge_key ` set es"
    then obtain a b w where e: "(a, b, w) \<in> set es" "edge_key (a, b, w) = edge_key (u, v, s)"
      by auto
    from grown_endpoints[OF grown_step.hyps(1) e(1)] have "a \<in> set vs" "b \<in> set vs" by auto
    moreover from e(2) have "v = a \<or> v = b"
      by (auto simp: edge_key_def canon_def split: if_splits)
    ultimately show False using grown_step.hyps(3) by auto
  qed
  have v_nb: "x = u" if "adj ?es v x \<or> adj ?es x v" for x
    using that grown_adj_in[OF grown_step.hyps(1)] grown_step.hyps(3)
    by (auto simp: adj_append_iff)
  have "\<not> cycle_in ?es c" for c
  proof
    assume c: "cycle_in ?es c"
    show False
    proof (cases "v \<in> set c")
      case True
      then obtain i where i: "i < length c" "c ! i = v" by (auto simp: in_set_conv_nth)
      from cycle_neighbours[OF c i(1)] obtain j k where
        jk: "j < length c" "k < length c" "j \<noteq> k" "adj ?es (c ! i) (c ! j)" "adj ?es (c ! k) (c ! i)"
        by blast
      then have "c ! j = u" "c ! k = u" using v_nb i(2) by auto
      moreover from c have "distinct c" by (simp add: cycle_in_def)
      ultimately show False using jk(1-3) nth_eq_iff_index_eq[of c j k] by simp
    next
      case False
      have "cycle_in es c"
        unfolding cycle_in_def
      proof (intro conjI allI impI)
        show "3 \<le> length c" "distinct c" using c by (auto simp: cycle_in_def)
      next
        fix i assume i: "i < length c"
        with c have a: "adj ?es (c ! i) (c ! (Suc i mod length c))" by (simp add: cycle_in_def)
        have "c ! i \<in> set c" using i by simp
        with False have "c ! i \<noteq> v" by auto
        moreover have "0 < length c" using i by linarith
        then have "Suc i mod length c < length c" by (rule mod_less_divisor)
        then have "c ! (Suc i mod length c) \<in> set c" by simp
        with False have "c ! (Suc i mod length c) \<noteq> v" by auto
        ultimately show "adj es (c ! i) (c ! (Suc i mod length c))"
          using a by (auto simp: adj_append_iff)
      qed
      with nocyc show False by blast
    qed
  qed
  then show ?case
    using loops keys uv newkey by (auto simp: acyclic_edges_def)
qed

lemma set_heappush: "set (heappush h e) = insert e (set h)"
  by (simp add: heappush_def set_insort_key)

lemma set_push_frontier:
  "set (push_frontier X indices in_tree v edges)
     = set edges \<union> (\<lambda>w. (1 - cos_sim X v w, v, w, cos_sim X v w)) ` (set indices - set in_tree)"
proof -
  have "set (fold (\<lambda>w h. if w \<in> set in_tree then h
                  else heappush h (1 - cos_sim X v w, v, w, cos_sim X v w)) ws h)
      = set h \<union> (\<lambda>w. (1 - cos_sim X v w, v, w, cos_sim X v w)) ` (set ws - set in_tree)" for ws h
    by (induction ws arbitrary: h) (auto simp: set_heappush)
  then show ?thesis by (simp add: push_frontier_def)
qed

lemma mst_inv_skip:
  assumes "mst_inv X indices in_tree (e # edges') mst" "fst (snd (snd e)) \<in> set in_tree"
  shows "mst_inv X indices in_tree edges' mst"
proof -
  obtain d u v s where e: "e = (d, u, v, s)" by (cases e)
  have "\<exists>d u s. (d, u, w, s) \<in> set edges'" if "w \<in> set indices - set in_tree" for w
  proof -
    from assms(1) that obtain d' u' s' where "(d', u', w, s') \<in> set (e # edges')"
      unfolding mst_inv_def by blast
    moreover have "w \<noteq> v" using that assms(2) e by auto
    ultimately show ?thesis using e by auto
  qed
  then show ?thesis using assms(1) unfolding mst_inv_def by auto
qed

lemma mst_inv_add:
  assumes "mst_inv X indices in_tree ((d, u, v, s) # edges') mst" "v \<notin> set in_tree"
  shows "mst_inv X indices (in_tree @ [v])
           (push_frontier X indices (in_tree @ [v]) v edges') (mst @ [(u, v, s)])"
proof -
  from assms(1) have g: "grown in_tree mst" and sub: "set in_tree \<subseteq> set indices"
    and ent: "\<forall>(d, u, v, s) \<in> set ((d, u, v, s) # edges'). u \<in> set in_tree \<and> v \<in> set indices \<and> s = cos_sim X u v"
    and cov: "\<forall>w \<in> set indices - set in_tree. \<exists>d' u' s'. (d', u', w, s') \<in> set ((d, u, v, s) # edges')"
    and wts: "\<forall>(u, v, s) \<in> set mst. s = cos_sim X u v"
    unfolding mst_inv_def by blast+
  from ent have u: "u \<in> set in_tree" and v: "v \<in> set indices" and s: "s = cos_sim X u v" by auto
  have g': "grown (in_tree @ [v]) (mst @ [(u, v, s)])"
    by (rule grown_step[OF g u assms(2)])
  have sub': "set (in_tree @ [v]) \<subseteq> set indices" using sub v by auto
  have ent': "\<forall>(d, u, w, s) \<in> set (push_frontier X indices (in_tree @ [v]) v edges').
                 u \<in> set (in_tree @ [v]) \<and> w \<in> set indices \<and> s = cos_sim X u w"
    using ent by (auto simp: set_push_frontier)
  have cov': "\<forall>w \<in> set indices - set (in_tree @ [v]).
                 \<exists>d' u' s'. (d', u', w, s') \<in> set (push_frontier X indices (in_tree @ [v]) v edges')"
    by (auto simp: set_push_frontier image_iff)
  have wts': "\<forall>(u, v, s) \<in> set (mst @ [(u, v, s)]). s = cos_sim X u v"
    using wts s by auto
  show ?thesis unfolding mst_inv_def using g' sub' ent' cov' wts' by blast
qed

lemma mst_inv_exit:
  assumes "mst_inv X indices in_tree edges mst" "distinct indices"
    "\<not> (length in_tree < length indices \<and> edges \<noteq> [])"
  shows "set in_tree = set indices"
proof (cases "edges = []")
  case True
  with assms(1) show ?thesis unfolding mst_inv_def by auto
next
  case False
  with assms(3) have len: "length indices \<le> length in_tree" by simp
  from assms(1) have d: "distinct in_tree" and sub: "set in_tree \<subseteq> set indices"
    unfolding mst_inv_def by (auto dest: grown_distinct)
  have "card (set indices) \<le> card (set in_tree)"
    using len d assms(2) by (simp add: distinct_card)
  then show ?thesis using sub by (simp add: card_seteq)
qed

lemma mst_loop_correct:
  "mst_inv X indices in_tree edges mst \<Longrightarrow> distinct indices \<Longrightarrow>
   \<exists>R. grown R (mst_loop X indices in_tree edges mst) \<and> set R = set indices
       \<and> (\<forall>(u, v, s) \<in> set (mst_loop X indices in_tree edges mst). s = cos_sim X u v)"
proof (induction X indices in_tree edges mst rule: mst_loop.induct)
  case (1 X indices in_tree edges mst)
  show ?case
  proof (cases "length in_tree < length indices \<and> edges \<noteq> []")
    case False
    have res: "mst_loop X indices in_tree edges mst = mst"
      by (subst mst_loop.simps) (simp only: False if_False)
    have "set in_tree = set indices" by (rule mst_inv_exit[OF "1.prems" False])
    moreover from "1.prems"(1) have "grown in_tree mst" "\<forall>(u, v, s) \<in> set mst. s = cos_sim X u v"
      unfolding mst_inv_def by blast+
    ultimately show ?thesis unfolding res by blast
  next
    case True
    then obtain e edges' where ed: "edges = e # edges'" by (cases edges) auto
    obtain d u v s where e: "e = (d, u, v, s)" by (cases e)
    have pop: "heappop edges = Some ((d, u, v, s), edges')" by (simp add: heappop_def ed e)
    show ?thesis
    proof (cases "v \<in> set in_tree")
      case vin: True
      have res: "mst_loop X indices in_tree edges mst = mst_loop X indices in_tree edges' mst"
        using True pop vin by (subst mst_loop.simps) simp
      have inv: "mst_inv X indices in_tree edges' mst"
        using mst_inv_skip[of X indices in_tree e edges' mst] "1.prems"(1) vin by (simp add: ed e)
      show ?thesis unfolding res
        by (rule "1.IH"(1)[OF True pop refl refl refl refl vin inv "1.prems"(2)])
    next
      case vout: False
      have res: "mst_loop X indices in_tree edges mst
                 = mst_loop X indices (in_tree @ [v])
                     (push_frontier X indices (in_tree @ [v]) v edges') (mst @ [(u, v, s)])"
        using True pop vout by (subst mst_loop.simps) simp
      have inv: "mst_inv X indices (in_tree @ [v])
                   (push_frontier X indices (in_tree @ [v]) v edges') (mst @ [(u, v, s)])"
        using mst_inv_add[of X indices in_tree d u v s edges' mst] "1.prems"(1) vout
        by (simp add: ed e)
      show ?thesis unfolding res
        by (rule "1.IH"(2)[OF True pop refl refl refl refl vout inv "1.prems"(2)])
    qed
  qed
qed

lemma set_init_heap:
  "set (fold (\<lambda>j h. heappush h (1 - cos_sim X i0 j, i0, j, cos_sim X i0 j)) js h)
     = set h \<union> (\<lambda>j. (1 - cos_sim X i0 j, i0, j, cos_sim X i0 j)) ` set js"
  by (induction js arbitrary: h) (auto simp: set_heappush)

lemma mst_inv_init:
  assumes "indices = i0 # js"
  shows "mst_inv X indices [i0]
           (fold (\<lambda>j h. heappush h (1 - cos_sim X i0 j, i0, j, cos_sim X i0 j)) js []) []"
  unfolding mst_inv_def using assms
  by (auto simp: set_init_heap image_iff intro: grown_root)

text \<open>
  Claim C4.  A cluster of at most one member contributes no edge.  For a cluster of
  \<open>M \<ge> 2\<close> distinct row indices the result has exactly \<open>M - 1\<close> edges, connects all
  members, has no self-loop, no repeated pair and no cycle, and every edge joins two
  members and carries the similarity of its endpoints.
\<close>

theorem cluster_mst_spanning_tree:
  "(length indices \<le> 1 \<longrightarrow> cluster_mst X indices = [])
   \<and> (distinct indices \<and> 2 \<le> length indices \<longrightarrow>
        length (cluster_mst X indices) = length indices - 1
        \<and> connected_on (cluster_mst X indices) (set indices)
        \<and> acyclic_edges (cluster_mst X indices)
        \<and> (\<forall>(u, v, s) \<in> set (cluster_mst X indices).
               u \<in> set indices \<and> v \<in> set indices \<and> s = cos_sim X u v))"
proof (intro conjI impI)
  show "cluster_mst X indices = []" if "length indices \<le> 1"
    using that by (simp add: cluster_mst_def)
next
  assume a: "distinct indices \<and> 2 \<le> length indices"
  then obtain i0 js where ij: "indices = i0 # js" by (cases indices) auto
  let ?h = "fold (\<lambda>j h. heappush h (1 - cos_sim X i0 j, i0, j, cos_sim X i0 j)) js []"
  have "\<not> length indices \<le> 1" using a by simp
  then have cm: "cluster_mst X indices = mst_loop X indices [i0] ?h []"
    unfolding cluster_mst_def by (simp add: ij Let_def)
  from mst_loop_correct[OF mst_inv_init[OF ij, of X]] a
  obtain R where R: "grown R (cluster_mst X indices)" "set R = set indices"
    and w: "\<forall>(u, v, s) \<in> set (cluster_mst X indices). s = cos_sim X u v"
    unfolding cm by blast
  have "length R = length indices"
    using R(2) grown_distinct[OF R(1)] a by (metis distinct_card)
  with grown_length[OF R(1)]
  show "length (cluster_mst X indices) = length indices - 1" by simp
  show "connected_on (cluster_mst X indices) (set indices)"
    using grown_connected[OF R(1)] R(2) by simp
  show "acyclic_edges (cluster_mst X indices)" by (rule grown_acyclic[OF R(1)])
  show "\<forall>(u, v, s) \<in> set (cluster_mst X indices).
          u \<in> set indices \<and> v \<in> set indices \<and> s = cos_sim X u v"
    using w grown_endpoints[OF R(1)] R(2) by auto
qed

theorem cluster_mst_spanning_tree_witness:
  "distinct [0, 1, 2::nat] \<and> 2 \<le> length [0, 1, 2::nat]
   \<and> cluster_mst [[1, 0], [0, 1], [3/5, 4/5]] [0, 1, 2] = [(0, 2, 3/5), (2, 1, 4/5)]
   \<and> length (cluster_mst [[1, 0], [0, 1], [3/5, 4/5]] [0, 1, 2]) = length [0, 1, 2::nat] - 1
   \<and> connected_on (cluster_mst [[1, 0], [0, 1], [3/5, 4/5]] [0, 1, 2]) (set [0, 1, 2])
   \<and> acyclic_edges (cluster_mst [[1, 0], [0, 1], [3/5, 4/5]] [0, 1, 2])
   \<and> length [5::nat] \<le> 1 \<and> cluster_mst [[1, 0], [0, 1], [3/5, 4/5]] [5] = []"
proof -
  have d: "distinct [0, 1, 2::nat] \<and> 2 \<le> length [0, 1, 2::nat]" by simp
  have e: "cluster_mst [[1, 0], [0, 1], [3/5, 4/5]] [0, 1, 2] = [(0, 2, 3/5), (2, 1, 4/5)]"
    by (simp add: cluster_mst_def mst_loop.simps push_frontier_def heappush_def heappop_def
          cos_sim_def dot_def)
  have s: "length [5::nat] \<le> 1" by simp
  from cluster_mst_spanning_tree[of "[0, 1, 2]" "[[1, 0], [0, 1], [3/5, 4/5]]"] d
    cluster_mst_spanning_tree[of "[5]" "[[1, 0], [0, 1], [3/5, 4/5]]"] s e
  show ?thesis by simp
qed

section \<open>Properties of the edge deduplication\<close>

lemma emit_neighbors_flat:
  "emit_neighbors st np = fold (\<lambda>(u, v, sim) s. emit_edge s u v sim) (neigh_edges np) st"
proof -
  have inner: "fold (\<lambda>(j, sim) s'. emit_edge s' i j sim) lst s
             = fold (\<lambda>(u, v, sim) s. emit_edge s u v sim) (map (\<lambda>(j, sim). (i, j, sim)) lst) s" for i lst s
    by (induction lst arbitrary: s) (auto)
  have "fold (\<lambda>(i, lst) s. fold (\<lambda>(j, sim) s'. emit_edge s' i j sim) lst s) xs st
      = fold (\<lambda>(u, v, sim) s. emit_edge s u v sim)
          (concat (map (\<lambda>(i, lst). map (\<lambda>(j, sim). (i, j, sim)) lst) xs)) st" for xs
    by (induction xs arbitrary: st) (auto simp: inner)
  then show ?thesis by (simp add: emit_neighbors_def neigh_edges_def)
qed

lemma emit_mst_flat:
  "emit_mst st mst min_sim
     = fold (\<lambda>(u, v, sim) s. emit_edge s u v sim) (filter (\<lambda>(u, v, sim). at_least sim (half min_sim)) mst) st"
  unfolding emit_mst_def by (induction mst arbitrary: st) auto

lemma dedup_edges_flat:
  "dedup_edges np mst min_sim
     = edge_list (fold (\<lambda>(u, v, sim) s. emit_edge s u v sim) (proposals np mst min_sim)
                       \<lparr>seen = {}, edge_list = []\<rparr>)"
  by (simp add: dedup_edges_def emit_neighbors_flat emit_mst_flat proposals_def)


lemma canon_le: "fst (canon u v) \<le> snd (canon u v)"
  by (simp add: canon_def)

lemma canon_idem: "canon (fst (canon u v)) (snd (canon u v)) = canon u v"
  by (simp add: canon_def)

lemma emit_edge_inv: "dd_inv st \<Longrightarrow> dd_inv (emit_edge st u v sim)"
  using canon_le[of u v]
  by (auto simp: dd_inv_def emit_edge_def Let_def edge_key_def canon_idem)

lemma fold_emit_inv:
  "dd_inv st \<Longrightarrow> dd_inv (fold (\<lambda>(u, v, sim) s. emit_edge s u v sim) es st)"
  by (induction es arbitrary: st) (auto simp: emit_edge_inv)

lemma fold_emit_keys:
  "dd_inv st \<Longrightarrow> seen (fold (\<lambda>(u, v, sim) s. emit_edge s u v sim) es st)
      = seen st \<union> edge_key ` set es"
proof (induction es arbitrary: st)
  case Nil then show ?case by simp
next
  case (Cons e es)
  obtain u v sim where e: "e = (u, v, sim)" by (cases e)
  have "seen (emit_edge st u v sim) = insert (canon u v) (seen st)"
    by (auto simp: emit_edge_def Let_def)
  with Cons.IH[OF emit_edge_inv[OF Cons.prems, of u v sim]] show ?case
    by (auto simp: e edge_key_def)
qed

lemma fold_emit_length:
  "length (edge_list (fold (\<lambda>(u, v, sim) s. emit_edge s u v sim) es st))
     \<le> length (edge_list st) + length es"
proof (induction es arbitrary: st)
  case Nil then show ?case by simp
next
  case (Cons e es)
  obtain u v sim where e: "e = (u, v, sim)" by (cases e)
  have "length (edge_list (emit_edge st u v sim)) \<le> Suc (length (edge_list st))"
    by (auto simp: emit_edge_def Let_def)
  with Cons.IH[of "emit_edge st u v sim"] show ?case by (simp add: e)
qed

lemma find_append:
  "find P (xs @ ys) = (case find P xs of None \<Rightarrow> find P ys | Some x \<Rightarrow> Some x)"
  by (induction xs) auto

lemma fold_emit_first:
  "dd_inv st \<Longrightarrow>
   first_weight (edge_list (fold (\<lambda>(u, v, sim) s. emit_edge s u v sim) es st)) k
     = first_weight (edge_list st @ es) k"
proof (induction es arbitrary: st)
  case Nil then show ?case by simp
next
  case (Cons e es)
  obtain u v sim where e: "e = (u, v, sim)" by (cases e)
  let ?st = "emit_edge st u v sim"
  have inv: "dd_inv ?st" by (rule emit_edge_inv[OF Cons.prems])
  have step: "first_weight (edge_list ?st @ es) k = first_weight (edge_list st @ e # es) k"
  proof (cases "canon u v \<in> seen st")
    case True
    then have in_keys: "canon u v \<in> edge_key ` set (edge_list st)"
      using Cons.prems by (simp add: dd_inv_def)
    have eq: "edge_list ?st = edge_list st" using True by (simp add: emit_edge_def)
    show ?thesis
    proof (cases "k = canon u v")
      case True
      with in_keys obtain x where "x \<in> set (edge_list st)" "edge_key x = k" by auto
      then have "find (\<lambda>e. edge_key e = k) (edge_list st) \<noteq> None"
        unfolding find_None_iff by blast
      then show ?thesis
        by (auto simp: first_weight_def eq find_append split: option.splits)
    next
      case False
      then show ?thesis
        by (auto simp: first_weight_def eq find_append e edge_key_def split: option.splits)
    qed
  next
    case False
    then have eq: "edge_list ?st = edge_list st @ [(fst (canon u v), snd (canon u v), sim)]"
      by (simp add: emit_edge_def Let_def)
    show ?thesis
      by (auto simp: first_weight_def eq find_append e edge_key_def canon_idem split: option.splits)
  qed
  show ?case using Cons.IH[OF inv, of] step by (simp add: e)
qed

lemma dd_inv_init: "dd_inv \<lparr>seen = {}, edge_list = []\<rparr>"
  by (simp add: dd_inv_def)

lemma find_distinct_key:
  "distinct (map f xs) \<Longrightarrow> x \<in> set xs \<Longrightarrow> find (\<lambda>e. f e = f x) xs = Some x"
  by (induction xs) (auto simp: image_iff)

text \<open>
  Claim C5.  Merging the neighbour lists and the spanning-tree edges gives an edge list in
  which no unordered index pair occurs twice; every entry has its smaller index first
  (strictly, when no proposal is a self-pair); the weight of an entry is the weight of the
  first proposal for its pair, in the order neighbour lists first, then the spanning-tree
  edges whose similarity is at least half of \<open>min_sim\<close>; the pairs of the result are
  exactly the pairs proposed; and the result is no longer than the two inputs together.
\<close>

theorem dedup_edges_merge:
  "distinct (map edge_key (dedup_edges np mst min_sim))
   \<and> (\<forall>(a, b, w) \<in> set (dedup_edges np mst min_sim). a \<le> b)
   \<and> ((\<forall>(u, v, w) \<in> set (proposals np mst min_sim). u \<noteq> v)
        \<longrightarrow> (\<forall>(a, b, w) \<in> set (dedup_edges np mst min_sim). a < b))
   \<and> (\<forall>(a, b, w) \<in> set (dedup_edges np mst min_sim).
          first_weight (proposals np mst min_sim) (a, b) = Some w)
   \<and> edge_key ` set (dedup_edges np mst min_sim) = edge_key ` set (proposals np mst min_sim)
   \<and> length (dedup_edges np mst min_sim) \<le> length (neigh_edges np) + length mst"
proof -
  let ?f = "\<lambda>(u, v, sim) s. emit_edge s u v sim"
  let ?cand = "proposals np mst min_sim"
  let ?st = "fold ?f ?cand \<lparr>seen = {}, edge_list = []\<rparr>"
  let ?out = "dedup_edges np mst min_sim"
  have out: "?out = edge_list ?st" by (rule dedup_edges_flat)
  have inv: "dd_inv ?st" by (rule fold_emit_inv[OF dd_inv_init])
  have d: "distinct (map edge_key ?out)" using inv by (simp add: out dd_inv_def)
  have le: "\<forall>(a, b, w) \<in> set ?out. a \<le> b" using inv by (auto simp: out dd_inv_def)
  have keys: "edge_key ` set ?out = edge_key ` set ?cand"
    using inv fold_emit_keys[OF dd_inv_init, of ?cand] by (simp add: out dd_inv_def)
  have fw: "first_weight ?out k = first_weight ?cand k" for k
    using fold_emit_first[OF dd_inv_init, of ?cand k] by (simp add: out)
  have first: "\<forall>(a, b, w) \<in> set ?out. first_weight ?cand (a, b) = Some w"
  proof (clarify)
    fix a b w assume m: "(a, b, w) \<in> set ?out"
    with le have "a \<le> b" by auto
    then have k: "edge_key (a, b, w) = (a, b)" by (auto simp: edge_key_def canon_def)
    have "find (\<lambda>e. edge_key e = edge_key (a, b, w)) ?out = Some (a, b, w)"
      by (rule find_distinct_key[OF d m])
    then have "first_weight ?out (a, b) = Some w" by (simp add: first_weight_def k)
    then show "first_weight ?cand (a, b) = Some w" by (simp add: fw)
  qed
  have strict: "(\<forall>(u, v, w) \<in> set ?cand. u \<noteq> v) \<longrightarrow> (\<forall>(a, b, w) \<in> set ?out. a < b)"
  proof (intro impI, clarify)
    fix a b w assume ns: "\<forall>(u, v, w) \<in> set ?cand. u \<noteq> v" and m: "(a, b, w) \<in> set ?out"
    from m le have ab: "a \<le> b" by auto
    then have "edge_key (a, b, w) = (a, b)" by (auto simp: edge_key_def canon_def)
    with m have "(a, b) \<in> edge_key ` set ?out" by force
    then obtain e where e: "e \<in> set ?cand" "edge_key e = (a, b)" unfolding keys by auto
    obtain u v s where uvs: "e = (u, v, s)" by (cases e)
    with e ns have "u \<noteq> v" by auto
    with e(2) uvs have "a \<noteq> b" by (auto simp: edge_key_def canon_def split: if_splits)
    with ab show "a < b" by simp
  qed
  have len: "length ?out \<le> length (neigh_edges np) + length mst"
  proof -
    have "length ?out \<le> length ?cand" using fold_emit_length[of ?cand "\<lparr>seen = {}, edge_list = []\<rparr>"]
      by (simp add: out)
    also have "\<dots> \<le> length (neigh_edges np) + length mst"
      by (simp add: proposals_def)
    finally show ?thesis .
  qed
  from d le strict first keys len show ?thesis by blast
qed


theorem dedup_edges_merge_witness:
  "list_all (\<lambda>(u, v, w). u \<noteq> v)
      (proposals [[(1, Fin (9/10))], [(0, Fin (9/10)), (2, Fin (6/10))], [(1, Fin (7/10))]]
                 [(0, 1, Fin (8/10)), (0, 2, Fin (2/10)), (2, 1, Fin (7/10))] (Num (Fin (1/2))))
   \<and> dedup_edges [[(1, Fin (9/10))], [(0, Fin (9/10)), (2, Fin (6/10))], [(1, Fin (7/10))]]
                   [(0, 1, Fin (8/10)), (0, 2, Fin (2/10)), (2, 1, Fin (7/10))] (Num (Fin (1/2)))
       = [(0, 1, Fin (9/10)), (1, 2, Fin (6/10))]
   \<and> list_all (\<lambda>(a, b, w). a < b
          \<and> first_weight (proposals [[(1, Fin (9/10))], [(0, Fin (9/10)), (2, Fin (6/10))], [(1, Fin (7/10))]]
                                   [(0, 1, Fin (8/10)), (0, 2, Fin (2/10)), (2, 1, Fin (7/10))]
                                   (Num (Fin (1/2)))) (a, b) = Some w)
        (dedup_edges [[(1, Fin (9/10))], [(0, Fin (9/10)), (2, Fin (6/10))], [(1, Fin (7/10))]]
                     [(0, 1, Fin (8/10)), (0, 2, Fin (2/10)), (2, 1, Fin (7/10))] (Num (Fin (1/2))))"
  using dedup_edges_merge [of "[[(1, Fin (9/10))], [(0, Fin (9/10)), (2, Fin (6/10))], [(1, Fin (7/10))]]"
                              "[(0, 1, Fin (8/10)), (0, 2, Fin (2/10)), (2, 1, Fin (7/10))]"
                              "Num (Fin (1/2))"]
  by (simp add: dedup_edges_def emit_neighbors_def emit_mst_def emit_edge_def canon_def
                proposals_def neigh_edges_def first_weight_def edge_key_def
                enumerate_eq_zip upt_rec)

section \<open>Properties of the normalisation\<close>

lemma axis_min_Min: "xs \<noteq> [] \<Longrightarrow> axis_min xs = Min (set xs)"
  using Min.set_eq_fold[of "hd xs" "tl xs"] by (cases xs) (simp_all add: axis_min_def)

lemma axis_max_Max: "xs \<noteq> [] \<Longrightarrow> axis_max xs = Max (set xs)"
  using Max.set_eq_fold[of "hd xs" "tl xs"] by (cases xs) (simp_all add: axis_max_def)

lemma axis_scale:
  fixes r :: real
  assumes "xs \<noteq> []" "0 < r"
  shows "axis_min (map (\<lambda>x. (x - m) / r) xs) = (axis_min xs - m) / r"
    and "axis_max (map (\<lambda>x. (x - m) / r) xs) = (axis_max xs - m) / r"
proof -
  have mono: "mono (\<lambda>x. (x - m) / r)"
    using assms(2) by (auto simp: mono_def divide_right_mono)
  have fin: "finite (set xs)" "set xs \<noteq> {}" using assms(1) by auto
  show "axis_min (map (\<lambda>x. (x - m) / r) xs) = (axis_min xs - m) / r"
    using mono_Min_commute[OF mono fin] assms(1) by (simp add: axis_min_Min)
  show "axis_max (map (\<lambda>x. (x - m) / r) xs) = (axis_max xs - m) / r"
    using mono_Max_commute[OF mono fin] assms(1) by (simp add: axis_max_Max)
qed

lemma axis_bounds:
  assumes "x \<in> set xs"
  shows "axis_min xs \<le> x" "x \<le> axis_max xs"
proof -
  from assms have ne: "xs \<noteq> []" by auto
  show "axis_min xs \<le> x" using assms by (simp add: axis_min_Min[OF ne])
  show "x \<le> axis_max xs" using assms by (simp add: axis_max_Max[OF ne])
qed

lemma unit_interval:
  fixes x mn mx :: real
  assumes "mn \<le> x" "x \<le> mx"
  shows "0 \<le> (x - mn) / max (mx - mn) (1 / 10 ^ 9)"
    and "(x - mn) / max (mx - mn) (1 / 10 ^ 9) \<le> 1"
proof -
  let ?r = "max (mx - mn) (1 / 10 ^ 9)"
  have r: "0 < ?r" by (simp add: less_max_iff_disj)
  show "0 \<le> (x - mn) / ?r" using assms(1) r by simp
  have "x - mn \<le> ?r" using assms(2) by simp
  then show "(x - mn) / ?r \<le> 1" using r by (simp add: divide_le_eq)
qed

text \<open>
  On a layout with at least one row the normalisation does not raise; it keeps the number
  of points; every normalised coordinate lies in \<open>[0, 1]\<close>; on each axis the least
  normalised value is \<open>0\<close>, and the greatest is \<open>1\<close> when the axis range is at least the
  floor \<open>1e-9\<close>, and the range divided by the floor (below \<open>1\<close>) otherwise.
\<close>

lemma normalize_coords_props:
  "coords_arr \<noteq> [] \<Longrightarrow>
    (\<exists>norm. normalize_coords coords_arr = Inr norm
       \<and> length norm = length coords_arr
       \<and> (\<forall>(x, y) \<in> set norm. 0 \<le> x \<and> x \<le> 1 \<and> 0 \<le> y \<and> y \<le> 1)
       \<and> axis_min (map fst norm) = 0 \<and> axis_min (map snd norm) = 0
       \<and> axis_max (map fst norm) =
             (if 1 / 10 ^ 9 \<le> axis_max (map fst coords_arr) - axis_min (map fst coords_arr) then 1
              else (axis_max (map fst coords_arr) - axis_min (map fst coords_arr)) * 10 ^ 9)
       \<and> axis_max (map snd norm) =
             (if 1 / 10 ^ 9 \<le> axis_max (map snd coords_arr) - axis_min (map snd coords_arr) then 1
              else (axis_max (map snd coords_arr) - axis_min (map snd coords_arr)) * 10 ^ 9)
       \<and> axis_max (map fst norm) \<le> 1 \<and> axis_max (map snd norm) \<le> 1)"
proof -
  assume ne: "coords_arr \<noteq> []"
  let ?xs = "map fst coords_arr" and ?ys = "map snd coords_arr"
  let ?mx = "axis_min ?xs" and ?my = "axis_min ?ys"
  let ?rx = "max (axis_max ?xs - ?mx) (1 / 10 ^ 9)" and ?ry = "max (axis_max ?ys - ?my) (1 / 10 ^ 9)"
  let ?norm = "map (\<lambda>(x, y). ((x - ?mx) / ?rx, (y - ?my) / ?ry)) coords_arr"
  have res: "normalize_coords coords_arr = Inr ?norm"
    using ne by (simp add: normalize_coords_def Let_def)
  have rx: "0 < ?rx" and ry: "0 < ?ry" by (simp_all add: less_max_iff_disj)
  have fx: "map fst ?norm = map (\<lambda>x. (x - ?mx) / ?rx) ?xs"
    and fy: "map snd ?norm = map (\<lambda>y. (y - ?my) / ?ry) ?ys"
    by (simp_all add: case_prod_beta comp_def)
  have nex: "?xs \<noteq> []" and ney: "?ys \<noteq> []" using ne by simp_all
  have box: "\<forall>(x, y) \<in> set ?norm. 0 \<le> x \<and> x \<le> 1 \<and> 0 \<le> y \<and> y \<le> 1"
  proof (clarify)
    fix x y assume "(x, y) \<in> set ?norm"
    then obtain a b where ab: "(a, b) \<in> set coords_arr" "x = (a - ?mx) / ?rx" "y = (b - ?my) / ?ry"
      by auto
    from ab(1) have a: "a \<in> set ?xs" and b: "b \<in> set ?ys" by force+
    have "?mx \<le> a" "a \<le> axis_max ?xs" "?my \<le> b" "b \<le> axis_max ?ys"
      using axis_bounds[OF a] axis_bounds[OF b] by blast+
    then show "0 \<le> x \<and> x \<le> 1 \<and> 0 \<le> y \<and> y \<le> 1"
      unfolding ab(2,3) by (intro conjI unit_interval)
  qed
  have minx: "axis_min (map fst ?norm) = 0" unfolding fx axis_scale(1)[OF nex rx] by simp
  have miny: "axis_min (map snd ?norm) = 0" unfolding fy axis_scale(1)[OF ney ry] by simp
  have maxx: "axis_max (map fst ?norm) =
      (if 1 / 10 ^ 9 \<le> axis_max ?xs - ?mx then 1 else (axis_max ?xs - ?mx) * 10 ^ 9)"
    unfolding fx axis_scale(2)[OF nex rx] by (auto simp: max_def)
  have maxy: "axis_max (map snd ?norm) =
      (if 1 / 10 ^ 9 \<le> axis_max ?ys - ?my then 1 else (axis_max ?ys - ?my) * 10 ^ 9)"
    unfolding fy axis_scale(2)[OF ney ry] by (auto simp: max_def)
  have lex: "axis_max (map fst ?norm) \<le> 1"
    unfolding fx axis_scale(2)[OF nex rx] using rx by (simp add: divide_le_eq)
  have ley: "axis_max (map snd ?norm) \<le> 1"
    unfolding fy axis_scale(2)[OF ney ry] using ry by (simp add: divide_le_eq)
  show "\<exists>norm. normalize_coords coords_arr = Inr norm
       \<and> length norm = length coords_arr
       \<and> (\<forall>(x, y) \<in> set norm. 0 \<le> x \<and> x \<le> 1 \<and> 0 \<le> y \<and> y \<le> 1)
       \<and> axis_min (map fst norm) = 0 \<and> axis_min (map snd norm) = 0
       \<and> axis_max (map fst norm) =
             (if 1 / 10 ^ 9 \<le> axis_max (map fst coords_arr) - axis_min (map fst coords_arr) then 1
              else (axis_max (map fst coords_arr) - axis_min (map fst coords_arr)) * 10 ^ 9)
       \<and> axis_max (map snd norm) =
             (if 1 / 10 ^ 9 \<le> axis_max (map snd coords_arr) - axis_min (map snd coords_arr) then 1
              else (axis_max (map snd coords_arr) - axis_min (map snd coords_arr)) * 10 ^ 9)
       \<and> axis_max (map fst norm) \<le> 1 \<and> axis_max (map snd norm) \<le> 1"
    apply (rule exI[of _ ?norm])
    using res box minx miny maxx maxy lex ley by (simp only: length_map)
qed

section \<open>Properties of the declutter\<close>

lemma fold_fixed: "(\<And>x. x \<in> set xs \<Longrightarrow> f x s = s) \<Longrightarrow> fold f xs s = s"
  by (induction xs) auto

lemma push_pair_quiet:
  assumes "quiet r_min P" "ii < length P" "jj < length P"
  shows "push_pair r_min (P ! ii) ii P jj = P"
proof (cases "jj \<le> ii")
  case True then show ?thesis by (simp add: push_pair_def)
next
  case False
  then have "ii < jj" by simp
  with assms have "\<not> (dist2 (P ! ii) (P ! jj) < r_min * r_min \<and> dist2 (P ! ii) (P ! jj) > 1 / 10 ^ 12)"
    unfolding quiet_def by blast
  then show ?thesis using False by (auto simp: push_pair_def dist2_def Let_def)
qed

lemma bidx_append: "bidx (bs @ [(k, idxs)]) = bidx bs \<union> set idxs"
  by (auto simp: bidx_def)

lemma bidx_update:
  "(k, idxs) \<in> set bs \<Longrightarrow>
   bidx (map (\<lambda>(k', idxs). if k' = k then (k', idxs @ [i]) else (k', idxs)) bs) = insert i (bidx bs)"
  unfolding bidx_def by (induction bs) (auto split: if_splits)

lemma bucket_add_indices: "bidx (bucket_add bs k i) = insert i (bidx bs)"
proof (cases "k \<in> fst ` set bs")
  case False then show ?thesis by (simp add: bucket_add_def bidx_append)
next
  case True
  then obtain idxs where m: "(k, idxs) \<in> set bs" by force
  show ?thesis using True bidx_update[OF m] by (simp add: bucket_add_def)
qed

lemma fold_bucket_add_indices:
  "bidx (fold (\<lambda>(i, p) bs. bucket_add bs (cell_of cell p) i) ips bs) = bidx bs \<union> fst ` set ips"
proof (induction ips arbitrary: bs)
  case Nil show ?case by simp
next
  case (Cons ip ips)
  obtain i p where ip: "ip = (i, p)" by (cases ip)
  show ?case using Cons.IH[of "bucket_add bs (cell_of cell p) i"]
    by (simp add: ip bucket_add_indices)
qed

lemma build_buckets_indices: "bidx (build_buckets cell P) = {..<length P}"
proof -
  have "bidx [] = {}" by (simp add: bidx_def)
  then have "bidx (build_buckets cell P) = fst ` set (enumerate 0 P)"
    unfolding build_buckets_def fold_bucket_add_indices by simp
  also have "\<dots> = set (map fst (enumerate 0 P))" by (rule list.set_map[symmetric])
  also have "\<dots> = set [0..<length P]" by (simp only: map_fst_enumerate add_0)
  also have "\<dots> = {..<length P}" by auto
  finally show ?thesis .
qed

lemma hot_of_subset: "set (hot_of bs k) \<subseteq> bidx bs"
proof
  fix x assume "x \<in> set (hot_of bs k)"
  then obtain k' idxs where "map_of bs k' = Some idxs" "x \<in> set idxs"
    unfolding hot_of_def by (auto split: option.splits) metis
  then have "(k', idxs) \<in> set bs" "x \<in> set idxs" by (auto dest: map_of_SomeD)
  then show "x \<in> bidx bs" unfolding bidx_def by force
qed

lemma spread_pass_quiet:
  assumes "quiet r_min P"
  shows "spread_pass r_min P = P"
proof -
  let ?bs = "build_buckets r_min P"
  have idx: "bidx ?bs = {..<length P}" by (rule build_buckets_indices)
  have pt: "spread_point r_min (hot_of ?bs k) P ii = P" if "ii < length P" for k ii
    unfolding spread_point_def
  proof (rule fold_fixed)
    fix jj assume "jj \<in> set (hot_of ?bs k)"
    with hot_of_subset[of ?bs k] idx have "jj < length P" by auto
    then show "push_pair r_min (P ! ii) ii P jj = P"
      by (rule push_pair_quiet[OF assms that])
  qed
  have bk: "spread_bucket r_min ?bs P b = P" if "b \<in> set ?bs" for b
    unfolding spread_bucket_def
  proof (rule fold_fixed)
    fix ii assume "ii \<in> set (snd b)"
    with that have "ii \<in> bidx ?bs" unfolding bidx_def by blast
    with idx have "ii < length P" by simp
    then show "spread_point r_min (hot_of ?bs (fst b)) P ii = P" by (rule pt)
  qed
  show ?thesis
    unfolding spread_pass_def Let_def by (rule fold_fixed) (rule bk)
qed

lemma spread_quiet:
  assumes "quiet r_min P" "r_min \<noteq> 0"
  shows "spread P r_min iters = Inr P"
proof -
  have "(spread_pass r_min ^^ n) P = P" for n
    by (induction n) (simp_all add: spread_pass_quiet[OF assms(1)])
  then show ?thesis using assms(2) by (simp add: spread_def)
qed

lemma floor_near:
  fixes x y :: real
  assumes "\<bar>x - y\<bar> < 1"
  shows "\<lfloor>y\<rfloor> - \<lfloor>x\<rfloor> \<in> {-1, 0, 1}"
proof -
  have "real_of_int \<lfloor>x\<rfloor> \<le> x" "x < real_of_int \<lfloor>x\<rfloor> + 1"
       "real_of_int \<lfloor>y\<rfloor> \<le> y" "y < real_of_int \<lfloor>y\<rfloor> + 1" by linarith+
  with assms have "real_of_int (\<lfloor>y\<rfloor> - \<lfloor>x\<rfloor>) < 2" "real_of_int (\<lfloor>y\<rfloor> - \<lfloor>x\<rfloor>) > -2"
    by (simp_all add: abs_less_iff) linarith+
  then have "\<lfloor>y\<rfloor> - \<lfloor>x\<rfloor> < 2" "\<lfloor>y\<rfloor> - \<lfloor>x\<rfloor> > -2" by linarith+
  then show ?thesis by auto
qed

lemma abs_lt_of_sq:
  fixes a r :: real
  assumes "a * a + b * b < r * r" "0 < r"
  shows "\<bar>a\<bar> < r"
proof (rule ccontr)
  assume "\<not> \<bar>a\<bar> < r"
  then have "r \<le> \<bar>a\<bar>" by simp
  then have "r * r \<le> \<bar>a\<bar> * \<bar>a\<bar>" using assms(2) by (intro mult_mono) simp_all
  also have "\<dots> = a * a" by simp
  also have "\<dots> \<le> a * a + b * b" by simp
  finally show False using assms(1) by simp
qed

lemma near_cells:
  assumes "dist2 p q < r * r" "0 < r"
  shows "cell_of r q \<in> set (neigh_keys (cell_of r p))"
proof -
  have ax: "\<bar>fst p - fst q\<bar> < r"
    using assms abs_lt_of_sq[of "fst p - fst q" "snd p - snd q" r] by (simp add: dist2_def)
  have ay: "\<bar>snd p - snd q\<bar> < r"
    using assms abs_lt_of_sq[of "snd p - snd q" "fst p - fst q" r] by (simp add: dist2_def add.commute)
  have "\<bar>fst p / r - fst q / r\<bar> < 1"
    using ax assms(2) by (simp add: diff_divide_distrib[symmetric] divide_less_eq)
  then have fx: "\<lfloor>fst q / r\<rfloor> - \<lfloor>fst p / r\<rfloor> \<in> {-1, 0, 1}" by (rule floor_near)
  have "\<bar>snd p / r - snd q / r\<bar> < 1"
    using ay assms(2) by (simp add: diff_divide_distrib[symmetric] divide_less_eq)
  then have fy: "\<lfloor>snd q / r\<rfloor> - \<lfloor>snd p / r\<rfloor> \<in> {-1, 0, 1}" by (rule floor_near)
  have "cell_of r q = (fst (cell_of r p) + (\<lfloor>fst q / r\<rfloor> - \<lfloor>fst p / r\<rfloor>),
                       snd (cell_of r p) + (\<lfloor>snd q / r\<rfloor> - \<lfloor>snd p / r\<rfloor>))"
    by (simp add: cell_of_def)
  moreover have "(fst k + a, snd k + b) \<in> set (neigh_keys k)"
    if "a \<in> {-1, 0, 1}" "b \<in> {-1, 0, 1}" for k :: "int \<times> int" and a b
    using that by (auto simp: neigh_keys_def)
  ultimately show ?thesis using fx fy by simp
qed

lemma push_pair_skip: "jj \<le> ii \<Longrightarrow> push_pair r p_ii ii P jj = P"
  by (simp add: push_pair_def)

lemma hot_of_distinct: "distinct (hot_of bs k)"
  by (simp add: hot_of_def)

lemma hot_of_member:
  "k' \<in> set (neigh_keys k) \<Longrightarrow> map_of bs k' = Some idxs \<Longrightarrow> i \<in> set idxs \<Longrightarrow> i \<in> set (hot_of bs k)"
  by (force simp: hot_of_def)

lemma quiet_two: "\<not> dist2 p q < r * r \<Longrightarrow> quiet r [p, q]"
  by (auto simp: quiet_def less_Suc_eq)

text \<open>The order in which one point meets the indices of \<open>hot\<close> does not matter.\<close>

lemma push_pair_shape:
  "push_pair r p ii P j =
     (if j \<le> ii \<or> \<not> (dist2 p (P ! j) < r * r \<and> dist2 p (P ! j) > 1 / 10 ^ 12) then P
      else P[ii := (fst (P ! ii) + (fst p - fst (P ! j)) * (0.5 * (r - sqrt (dist2 p (P ! j))) / sqrt (dist2 p (P ! j))),
                    snd (P ! ii) + (snd p - snd (P ! j)) * (0.5 * (r - sqrt (dist2 p (P ! j))) / sqrt (dist2 p (P ! j)))),
             j := (fst (P ! j) - (fst p - fst (P ! j)) * (0.5 * (r - sqrt (dist2 p (P ! j))) / sqrt (dist2 p (P ! j))),
                   snd (P ! j) - (snd p - snd (P ! j)) * (0.5 * (r - sqrt (dist2 p (P ! j))) / sqrt (dist2 p (P ! j))))])"
  by (auto simp: push_pair_def dist2_def Let_def)

lemma push_pair_commute:
  "push_pair r p ii (push_pair r p ii P j) j' = push_pair r p ii (push_pair r p ii P j') j"
proof (cases "j \<le> ii \<or> j' \<le> ii \<or> j = j'")
  case True
  then show ?thesis by (auto simp: push_pair_def)
next
  case False
  then have ne: "ii < j" "ii < j'" "j \<noteq> j'" by auto
  show ?thesis
  proof (cases "ii < length P")
    case True
    show ?thesis
      unfolding push_pair_shape[of r p ii _ j] push_pair_shape[of r p ii _ j']
      using ne True
      by (auto simp: nth_list_update list_update_swap[of j j'] list_update_swap[of ii] algebra_simps)
  next
    case False
    show ?thesis
      unfolding push_pair_shape[of r p ii _ j] push_pair_shape[of r p ii _ j']
      using ne False
      by (auto simp: nth_list_update list_update_swap[of j j'] list_update_beyond)
  qed
qed

lemma spread_point_order:
  assumes "mset hot = mset hot'"
  shows "spread_point r hot P ii = spread_point r hot' P ii"
proof -
  have "fold (\<lambda>jj P'. push_pair r (P ! ii) ii P' jj) hot = fold (\<lambda>jj P'. push_pair r (P ! ii) ii P' jj) hot'"
    by (rule fold_multiset_equiv[OF _ assms]) (auto simp: fun_eq_iff push_pair_commute)
  then show ?thesis by (simp add: spread_point_def)
qed

lemma spread_pass_visits:
  "spread_pass r P
     = fold (\<lambda>(k, ii) S. spread_point r (hot_of (build_buckets r P) k) S ii)
            (visits (build_buckets r P)) P"
proof -
  have "fold (\<lambda>b P'. spread_bucket r bs0 P' b) bs S
      = fold (\<lambda>(k, ii) S. spread_point r (hot_of bs0 k) S ii) (visits bs) S" for bs bs0 S
  proof (induction bs arbitrary: S)
    case Nil show ?case by (simp add: visits_def)
  next
    case (Cons b bs)
    obtain k idxs where b: "b = (k, idxs)" by (cases b)
    have "fold (\<lambda>(k, ii) S. spread_point r (hot_of bs0 k) S ii) (map (Pair k) idxs) S
        = spread_bucket r bs0 S (k, idxs)" for S
      by (simp add: spread_bucket_def fold_map comp_def)
    with Cons.IH show ?case by (simp add: visits_def b)
  qed
  then show ?thesis by (simp add: spread_pass_def Let_def)
qed

lemma visits_snd: "map snd (visits bs) = concat (map snd bs)"
  by (induction bs) (auto simp: visits_def comp_def)

lemma visits_mem: "(k, ii) \<in> set (visits bs) \<longleftrightarrow> (\<exists>idxs. (k, idxs) \<in> set bs \<and> ii \<in> set idxs)"
  by (induction bs) (auto simp: visits_def)

text \<open>The bucket dictionary: one entry per cell, every point in the entry of its own cell,
  every index in exactly one entry.\<close>

lemma bucket_update_other:
  "k \<notin> fst ` set bs \<Longrightarrow>
   map (\<lambda>(k', idxs). if k' = k then (k', idxs @ [i]) else (k', idxs)) bs = bs"
  by (induction bs) auto

lemma bucket_add_keys: "distinct (map fst bs) \<Longrightarrow> distinct (map fst (bucket_add bs k i))"
proof -
  have "map fst (map (\<lambda>(k', idxs). if k' = k then (k', idxs @ [i]) else (k', idxs)) bs) = map fst bs"
    by (induction bs) auto
  then show "distinct (map fst bs) \<Longrightarrow> distinct (map fst (bucket_add bs k i))"
    unfolding bucket_add_def by (simp only: split: if_splits) auto
qed

lemma bucket_update_mset:
  "distinct (map fst bs) \<Longrightarrow> k \<in> fst ` set bs \<Longrightarrow>
   mset (concat (map snd (map (\<lambda>(k', idxs). if k' = k then (k', idxs @ [i]) else (k', idxs)) bs)))
     = add_mset i (mset (concat (map snd bs)))"
proof (induction bs)
  case Nil then show ?case by simp
next
  case (Cons b bs)
  obtain k0 idxs0 where b: "b = (k0, idxs0)" by (cases b)
  show ?case
  proof (cases "k0 = k")
    case True
    then have "k \<notin> fst ` set bs" using Cons.prems(1) by (simp add: b)
    then show ?thesis using True by (simp add: b bucket_update_other)
  next
    case False
    then have "k \<in> fst ` set bs" using Cons.prems(2) by (auto simp: b)
    with Cons show ?thesis using False by (simp add: b)
  qed
qed

lemma bucket_add_mset:
  "distinct (map fst bs) \<Longrightarrow>
   mset (concat (map snd (bucket_add bs k i))) = add_mset i (mset (concat (map snd bs)))"
  unfolding bucket_add_def using bucket_update_mset[of bs k i] by (auto simp del: map_map)

lemma bucket_add_cells:
  assumes "\<forall>(k', idxs) \<in> set bs. \<forall>j \<in> set idxs. k' = cell_of cell (P ! j)"
    and "k = cell_of cell (P ! i)"
  shows "\<forall>(k', idxs) \<in> set (bucket_add bs k i). \<forall>j \<in> set idxs. k' = cell_of cell (P ! j)"
  using assms unfolding bucket_add_def by (auto split: if_splits) blast+

lemma fold_bucket_add:
  assumes "distinct (map fst bs)"
    and "\<forall>(k', idxs) \<in> set bs. \<forall>j \<in> set idxs. k' = cell_of cell (P ! j)"
    and "\<forall>(i, p) \<in> set ips. p = P ! i"
  shows "distinct (map fst (fold (\<lambda>(i, p) bs. bucket_add bs (cell_of cell p) i) ips bs))
    \<and> (\<forall>(k', idxs) \<in> set (fold (\<lambda>(i, p) bs. bucket_add bs (cell_of cell p) i) ips bs).
          \<forall>j \<in> set idxs. k' = cell_of cell (P ! j))
    \<and> mset (concat (map snd (fold (\<lambda>(i, p) bs. bucket_add bs (cell_of cell p) i) ips bs)))
        = mset (concat (map snd bs)) + mset (map fst ips)"
  using assms
proof (induction ips arbitrary: bs)
  case Nil then show ?case by simp
next
  case (Cons ip ips)
  obtain i p where ip: "ip = (i, p)" by (cases ip)
  have p: "p = P ! i" using Cons.prems(3) by (simp add: ip)
  let ?bs = "bucket_add bs (cell_of cell p) i"
  have a: "distinct (map fst ?bs)" by (rule bucket_add_keys[OF Cons.prems(1)])
  have b: "\<forall>(k', idxs) \<in> set ?bs. \<forall>j \<in> set idxs. k' = cell_of cell (P ! j)"
    by (rule bucket_add_cells[OF Cons.prems(2)]) (simp add: p)
  have c: "\<forall>(i, p) \<in> set ips. p = P ! i" using Cons.prems(3) by simp
  from Cons.IH[OF a b c] show ?case
    by (simp add: ip bucket_add_mset[OF Cons.prems(1)])
qed

lemma build_buckets_props:
  "distinct (map fst (build_buckets cell P))"
  "\<forall>(k, idxs) \<in> set (build_buckets cell P). \<forall>j \<in> set idxs. k = cell_of cell (P ! j)"
  "mset (concat (map snd (build_buckets cell P))) = mset [0..<length P]"
proof -
  have e: "\<forall>(i, p) \<in> set (enumerate 0 P). p = P ! i"
    by (auto simp: in_set_enumerate_eq)
  have "distinct (map fst ([] :: buckets))"
       "\<forall>(k', idxs) \<in> set ([] :: buckets). \<forall>j \<in> set idxs. k' = cell_of cell (P ! j)"
    by simp_all
  note f = fold_bucket_add[OF this e, folded build_buckets_def]
  from f show "distinct (map fst (build_buckets cell P))" by blast
  from f show "\<forall>(k, idxs) \<in> set (build_buckets cell P). \<forall>j \<in> set idxs. k = cell_of cell (P ! j)"
    by blast
  from f have "mset (concat (map snd (build_buckets cell P))) = mset (map fst (enumerate 0 P))"
    by simp
  then show "mset (concat (map snd (build_buckets cell P))) = mset [0..<length P]"
    by (simp only: map_fst_enumerate add_0)
qed

lemma visits_props:
  "distinct (map snd (visits (build_buckets cell P)))"
  "set (map snd (visits (build_buckets cell P))) = {..<length P}"
  "(k, ii) \<in> set (visits (build_buckets cell P)) \<Longrightarrow> k = cell_of cell (P ! ii)"
proof -
  have m: "mset (map snd (visits (build_buckets cell P))) = mset [0..<length P]"
    unfolding visits_snd by (rule build_buckets_props(3))
  show "distinct (map snd (visits (build_buckets cell P)))" using perm_upt(1)[OF m] .
  show "set (map snd (visits (build_buckets cell P))) = {..<length P}" using perm_upt(2)[OF m] .
  show "k = cell_of cell (P ! ii)" if "(k, ii) \<in> set (visits (build_buckets cell P))"
    using that build_buckets_props(2)[of cell P] unfolding visits_mem by auto
qed

lemma bucket_lookup:
  assumes "ii < length P"
  shows "\<exists>idxs. map_of (build_buckets cell P) (cell_of cell (P ! ii)) = Some idxs \<and> ii \<in> set idxs"
proof -
  from assms have "ii \<in> bidx (build_buckets cell P)" by (simp add: build_buckets_indices)
  then obtain k idxs where m: "(k, idxs) \<in> set (build_buckets cell P)" "ii \<in> set idxs"
    unfolding bidx_def by force
  with build_buckets_props(2)[of cell P] have "k = cell_of cell (P ! ii)" by auto
  with m show ?thesis using map_of_is_SomeI[OF build_buckets_props(1) m(1)] by auto
qed

lemma hot_cells:
  assumes "jj \<in> set (hot_of (build_buckets cell P) k)"
  shows "jj < length P" and "cell_of cell (P ! jj) \<in> set (neigh_keys k)"
proof -
  from assms hot_of_subset[of "build_buckets cell P" k] show "jj < length P"
    by (auto simp: build_buckets_indices)
  from assms obtain k' idxs where k': "k' \<in> set (neigh_keys k)"
      "map_of (build_buckets cell P) k' = Some idxs" "jj \<in> set idxs"
    unfolding hot_of_def by (auto split: option.splits) metis
  then have "(k', idxs) \<in> set (build_buckets cell P)" by (auto dest: map_of_SomeD)
  with build_buckets_props(2)[of cell P] k'(3) have "k' = cell_of cell (P ! jj)" by auto
  with k'(1) show "cell_of cell (P ! jj) \<in> set (neigh_keys k)" by simp
qed

lemma hot_has:
  assumes "dist2 (P ! ii) (P ! jj) < r * r" "0 < r" "jj < length P"
  shows "jj \<in> set (hot_of (build_buckets r P) (cell_of r (P ! ii)))"
proof -
  from bucket_lookup[OF assms(3)] obtain idxs where
    "map_of (build_buckets r P) (cell_of r (P ! jj)) = Some idxs" "jj \<in> set idxs" by blast
  then show ?thesis by (rule hot_of_member[OF near_cells[OF assms(1,2)]])
qed

text \<open>A push changes no point but the two it is applied to, and keeps the number of points.\<close>

lemma push_pair_length: "length (push_pair r p ii S jj) = length S"
  by (simp add: push_pair_def Let_def)

lemma push_pair_other: "k \<noteq> ii \<Longrightarrow> k \<noteq> jj \<Longrightarrow> push_pair r p ii S jj ! k = S ! k"
  by (simp add: push_pair_def Let_def)

lemma push_pair_guard:
  "\<not> (dist2 p (S ! jj) < r * r \<and> dist2 p (S ! jj) > 1 / 10 ^ 12) \<Longrightarrow> push_pair r p ii S jj = S"
  by (auto simp: push_pair_def dist2_def Let_def)

text \<open>
  Points that a pass cannot move.  Let \<open>U\<close> be a set of indices such that every point in
  the cell of a point of \<open>U\<close>, or in a cell next to it, is itself in \<open>U\<close>, and no pair of
  \<open>U\<close> satisfies the push condition.  Then a pass leaves every point of \<open>U\<close> where it was,
  whatever happens to the others.
\<close>

lemma spread_point_protected:
  assumes U: "\<And>a b. a < b \<Longrightarrow> b < length P \<Longrightarrow> a \<in> U \<or> b \<in> U \<Longrightarrow>
                cell_of r (P ! b) \<in> set (neigh_keys (cell_of r (P ! a))) \<Longrightarrow>
                a \<in> U \<and> b \<in> U
                \<and> \<not> (dist2 (P ! a) (P ! b) < r * r \<and> dist2 (P ! a) (P ! b) > 1 / 10 ^ 12)"
    and hot: "set hot \<subseteq> set (hot_of (build_buckets r P) (cell_of r (P ! ii)))"
    and p: "ii \<in> U \<longrightarrow> p = P ! ii"
    and S: "length S = length P" "\<forall>k \<in> U. S ! k = P ! k"
  shows "length (fold (\<lambda>jj S'. push_pair r p ii S' jj) hot S) = length P
       \<and> (\<forall>k \<in> U. fold (\<lambda>jj S'. push_pair r p ii S' jj) hot S ! k = P ! k)"
  using hot S
proof (induction hot arbitrary: S)
  case Nil then show ?case by simp
next
  case (Cons jj hot)
  let ?S = "push_pair r p ii S jj"
  have len: "length ?S = length P" using Cons.prems(2) by (simp add: push_pair_length)
  have jjh: "jj \<in> set (hot_of (build_buckets r P) (cell_of r (P ! ii)))" using Cons.prems(1) by simp
  note hc = hot_cells[OF jjh]
  have keep: "\<forall>k \<in> U. ?S ! k = P ! k"
  proof (cases "jj \<le> ii")
    case True then show ?thesis using Cons.prems(3) by (simp add: push_pair_skip)
  next
    case False
    then have lt: "ii < jj" by simp
    show ?thesis
    proof (cases "ii \<in> U \<or> jj \<in> U")
      case True
      from U[OF lt hc(1) True hc(2)] have u: "ii \<in> U" "jj \<in> U"
        and q: "\<not> (dist2 (P ! ii) (P ! jj) < r * r \<and> dist2 (P ! ii) (P ! jj) > 1 / 10 ^ 12)"
        by blast+
      have "p = P ! ii" using p u(1) by simp
      moreover have "S ! jj = P ! jj" using Cons.prems(3) u(2) by simp
      ultimately have "?S = S" using q by (intro push_pair_guard) simp
      then show ?thesis using Cons.prems(3) by simp
    next
      case False
      have "?S ! k = P ! k" if "k \<in> U" for k
      proof -
        from that False have "k \<noteq> ii" "k \<noteq> jj" by auto
        then have "?S ! k = S ! k" by (rule push_pair_other)
        with that Cons.prems(3) show ?thesis by simp
      qed
      then show ?thesis by blast
    qed
  qed
  from Cons.IH[OF _ len keep] Cons.prems(1) show ?case by simp
qed

lemma spread_pass_protected:
  assumes U: "\<And>a b. a < b \<Longrightarrow> b < length P \<Longrightarrow> a \<in> U \<or> b \<in> U \<Longrightarrow>
                cell_of r (P ! b) \<in> set (neigh_keys (cell_of r (P ! a))) \<Longrightarrow>
                a \<in> U \<and> b \<in> U
                \<and> \<not> (dist2 (P ! a) (P ! b) < r * r \<and> dist2 (P ! a) (P ! b) > 1 / 10 ^ 12)"
  shows "length (spread_pass r P) = length P \<and> (\<forall>k \<in> U. spread_pass r P ! k = P ! k)"
proof -
  let ?bs = "build_buckets r P"
  let ?step = "\<lambda>(k, ii) S. spread_point r (hot_of ?bs k) S ii"
  have "length (fold ?step vs S) = length P \<and> (\<forall>k \<in> U. fold ?step vs S ! k = P ! k)"
    if "set vs \<subseteq> set (visits ?bs)" "length S = length P" "\<forall>k \<in> U. S ! k = P ! k" for vs S
    using that
  proof (induction vs arbitrary: S)
    case Nil then show ?case by simp
  next
    case (Cons v vs)
    obtain k ii where v: "v = (k, ii)" by (cases v)
    have k: "k = cell_of r (P ! ii)" using Cons.prems(1) visits_props(3)[of k ii r P] by (simp add: v)
    have "length (spread_point r (hot_of ?bs k) S ii) = length P
        \<and> (\<forall>u \<in> U. spread_point r (hot_of ?bs k) S ii ! u = P ! u)"
      unfolding spread_point_def k
      by (rule spread_point_protected[OF U _ _ Cons.prems(2,3)]) (use Cons.prems(3) in auto)
    with Cons.IH[of "spread_point r (hot_of ?bs k) S ii"] Cons.prems(1) show ?case
      by (simp add: v)
  qed
  from this[of "visits ?bs" P] show ?thesis by (simp add: spread_pass_visits)
qed

text \<open>Points at least two cell widths apart on one axis are not in neighbouring cells.\<close>

lemma floor_far:
  fixes x y :: real
  assumes "2 \<le> \<bar>x - y\<bar>"
  shows "\<lfloor>y\<rfloor> - \<lfloor>x\<rfloor> \<notin> {-1, 0, 1}"
proof (cases "y \<le> x")
  case True
  with assms have "y + 2 \<le> x" by simp
  then have "\<lfloor>y\<rfloor> - \<lfloor>x\<rfloor> < -1" by linarith
  then show ?thesis by auto
next
  case False
  with assms have "x + 2 \<le> y" by simp
  then have "\<lfloor>y\<rfloor> - \<lfloor>x\<rfloor> > 1" by linarith
  then show ?thesis by auto
qed

lemma far_cells:
  assumes "r \<noteq> 0" "2 * \<bar>r\<bar> \<le> \<bar>fst p - fst q\<bar> \<or> 2 * \<bar>r\<bar> \<le> \<bar>snd p - snd q\<bar>"
  shows "cell_of r q \<notin> set (neigh_keys (cell_of r p))"
proof -
  have sc: "2 \<le> \<bar>a / r - b / r\<bar>" if "2 * \<bar>r\<bar> \<le> \<bar>a - b\<bar>" for a b :: real
  proof -
    have "\<bar>a / r - b / r\<bar> = \<bar>a - b\<bar> / \<bar>r\<bar>" by (simp add: diff_divide_distrib[symmetric])
    then show ?thesis using that assms(1) by (simp add: le_divide_eq)
  qed
  have mem: "(c, d) \<in> set (neigh_keys k) \<Longrightarrow> c - fst k \<in> {-1, 0, 1} \<and> d - snd k \<in> {-1, 0, 1}"
    for c d :: int and k by (auto simp: neigh_keys_def)
  show ?thesis
  proof
    assume "cell_of r q \<in> set (neigh_keys (cell_of r p))"
    from mem[OF this[unfolded cell_of_def]]
    have "\<lfloor>fst q / r\<rfloor> - \<lfloor>fst p / r\<rfloor> \<in> {-1, 0, 1}" "\<lfloor>snd q / r\<rfloor> - \<lfloor>snd p / r\<rfloor> \<in> {-1, 0, 1}"
      by simp_all
    with assms(2) floor_far[OF sc, of "fst p" "fst q"] floor_far[OF sc, of "snd p" "snd q"]
    show False by blast
  qed
qed

text \<open>
  A pass with a single push.  If \<open>(i, j)\<close> is the only pair of the layout that satisfies
  the push condition, and the layout after pushing it is quiet, the pass does exactly
  that one push.
\<close>

lemma spread_pass_single_push:
  assumes r: "0 < r" and ij: "i < j" "j < length P"
    and close: "dist2 (P ! i) (P ! j) < r * r"
    and others: "\<And>a b. a < b \<Longrightarrow> b < length P \<Longrightarrow> (a, b) \<noteq> (i, j) \<Longrightarrow>
                   \<not> (dist2 (P ! a) (P ! b) < r * r \<and> dist2 (P ! a) (P ! b) > 1 / 10 ^ 12)"
    and after: "quiet r (push_pair r (P ! i) i P j)"
  shows "spread_pass r P = push_pair r (P ! i) i P j"
proof -
  let ?Q = "push_pair r (P ! i) i P j"
  let ?bs = "build_buckets r P"
  let ?step = "\<lambda>(k, ii) S. spread_point r (hot_of ?bs k) S ii"
  let ?vs = "visits ?bs"
  have lenQ: "length ?Q = length P" by (rule push_pair_length)
  have il: "i < length P" using ij by simp
  then have "i \<in> set (map snd ?vs)" unfolding visits_props(2) by simp
  then obtain k where "(k, i) \<in> set ?vs" by auto
  then obtain pre post where vs: "?vs = pre @ (k, i) # post" by (meson split_list)
  have k: "k = cell_of r (P ! i)"
    by (rule visits_props(3)) (simp add: vs)
  have d: "distinct (map snd ?vs)" by (rule visits_props(1))
  have npre: "i \<notin> snd ` set pre" and npost: "i \<notin> snd ` set post"
    using d unfolding vs by auto
  have inP: "ii < length P" if "(k', ii) \<in> set ?vs" for k' ii
  proof -
    from that have "ii \<in> set (map snd ?vs)" by force
    then show ?thesis unfolding visits_props(2) by simp
  qed
  have pre: "fold ?step pre P = P"
  proof (rule fold_fixed)
    fix v assume v: "v \<in> set pre"
    obtain k' ii where vv: "v = (k', ii)" by (cases v)
    from v npre have ne: "ii \<noteq> i" by (force simp: vv)
    have "spread_point r (hot_of ?bs k') P ii = P"
      unfolding spread_point_def
    proof (rule fold_fixed)
      fix jj assume jj: "jj \<in> set (hot_of ?bs k')"
      show "push_pair r (P ! ii) ii P jj = P"
      proof (cases "jj \<le> ii")
        case True then show ?thesis by (rule push_pair_skip)
      next
        case False
        then have "ii < jj" by simp
        moreover have "jj < length P" by (rule hot_cells(1)[OF jj])
        moreover have "(ii, jj) \<noteq> (i, j)" using ne by simp
        ultimately show ?thesis by (intro push_pair_guard others)
      qed
    qed
    then show "?step v P = P" by (simp add: vv)
  qed
  let ?hot = "hot_of ?bs (cell_of r (P ! i))"
  have jh: "j \<in> set ?hot" by (rule hot_has[OF close r ij(2)])
  have dh: "distinct ?hot" by (rule hot_of_distinct)
  have "mset ?hot = mset (j # remove1 j ?hot)" using jh by simp
  then have "spread_point r ?hot P i = spread_point r (j # remove1 j ?hot) P i"
    by (rule spread_point_order)
  also have "\<dots> = fold (\<lambda>jj S. push_pair r (P ! i) i S jj) (remove1 j ?hot) ?Q"
    by (simp add: spread_point_def)
  also have "\<dots> = ?Q"
  proof (rule fold_fixed)
    fix jj assume jj: "jj \<in> set (remove1 j ?hot)"
    then have jjh: "jj \<in> set ?hot" and nej: "jj \<noteq> j" using dh by auto
    show "push_pair r (P ! i) i ?Q jj = ?Q"
    proof (cases "jj \<le> i")
      case True then show ?thesis by (rule push_pair_skip)
    next
      case False
      then have lt: "i < jj" by simp
      have l: "jj < length P" by (rule hot_cells(1)[OF jjh])
      have same: "?Q ! jj = P ! jj" using lt nej by (intro push_pair_other) simp_all
      have "(i, jj) \<noteq> (i, j)" using nej by simp
      from others[OF lt l this] show ?thesis by (intro push_pair_guard) (simp add: same)
    qed
  qed
  finally have mid: "?step (k, i) P = ?Q" by (simp add: k)
  have post: "fold ?step post ?Q = ?Q"
  proof (rule fold_fixed)
    fix v assume v: "v \<in> set post"
    obtain k' ii where vv: "v = (k', ii)" by (cases v)
    have iil: "ii < length ?Q" using inP[of k' ii] v by (simp add: vs vv lenQ)
    have "spread_point r (hot_of ?bs k') ?Q ii = ?Q"
      unfolding spread_point_def
    proof (rule fold_fixed)
      fix jj assume jj: "jj \<in> set (hot_of ?bs k')"
      have "jj < length ?Q" using hot_cells(1)[OF jj] by (simp add: lenQ)
      then show "push_pair r (?Q ! ii) ii ?Q jj = ?Q" by (rule push_pair_quiet[OF after iil])
    qed
    then show "?step v ?Q = ?Q" by (simp add: vv)
  qed
  show ?thesis
    unfolding spread_pass_visits vs by (simp add: pre mid[simplified] post)
qed

text \<open>The Euclidean distance behind \<open>dist2\<close>, for the triangle inequality: a point is read
  as a complex number.\<close>

lemma dist2_cmod: "dist2 p q = (cmod (Complex (fst p) (snd p) - Complex (fst q) (snd q)))\<^sup>2"
  by (simp add: dist2_def cmod_def power2_eq_square)

lemma far_after_move:
  assumes "(3 * r / 2) * (3 * r / 2) \<le> dist2 c a" "dist2 a a' \<le> (r / 2) * (r / 2)" "0 < r"
  shows "r * r \<le> dist2 c a'"
proof -
  let ?c = "Complex (fst c) (snd c)" and ?a = "Complex (fst a) (snd a)"
  let ?a' = "Complex (fst a') (snd a')"
  have "(3 * r / 2)\<^sup>2 \<le> (cmod (?c - ?a))\<^sup>2"
    using assms(1) by (simp only: dist2_cmod power2_eq_square)
  then have ca: "3 * r / 2 \<le> cmod (?c - ?a)" by (rule power2_le_imp_le) simp
  have "(cmod (?a - ?a'))\<^sup>2 \<le> (r / 2)\<^sup>2"
    using assms(2) by (simp only: dist2_cmod power2_eq_square)
  then have aa: "cmod (?a - ?a') \<le> r / 2" by (rule power2_le_imp_le) (use assms(3) in simp)
  have "cmod (?c - ?a) \<le> cmod (?c - ?a') + cmod (?a' - ?a)"
    using norm_triangle_ineq[of "?c - ?a'" "?a' - ?a"] by simp
  with ca aa have "r \<le> cmod (?c - ?a')" by (simp add: norm_minus_commute)
  then have "r\<^sup>2 \<le> (cmod (?c - ?a'))\<^sup>2" using assms(3) by (intro power_mono) simp_all
  then show ?thesis by (simp only: dist2_cmod power2_eq_square)
qed

lemma dist2_commute: "dist2 p q = dist2 q p"
  by (simp add: dist2_def algebra_simps)

text \<open>The push of one pair: both points move by half the missing distance along the line
  through them, and end exactly \<open>r_min\<close> apart.\<close>

lemma push_pair_apart:
  assumes r: "0 < r" and ij: "i < j" "j < length P"
    and close: "1 / 10 ^ 12 < dist2 (P ! i) (P ! j)" "dist2 (P ! i) (P ! j) < r * r"
  shows "dist2 (push_pair r (P ! i) i P j ! i) (push_pair r (P ! i) i P j ! j) = r * r"
    and "dist2 (P ! i) (push_pair r (P ! i) i P j ! i) \<le> (r / 2) * (r / 2)"
    and "dist2 (P ! j) (push_pair r (P ! i) i P j ! j) \<le> (r / 2) * (r / 2)"
proof -
  define dx where "dx = fst (P ! i) - fst (P ! j)"
  define dy where "dy = snd (P ! i) - snd (P ! j)"
  define d2 where "d2 = dx * dx + dy * dy"
  define d where "d = sqrt d2"
  define push where "push = 0.5 * (r - d) / d"
  have d2: "d2 = dist2 (P ! i) (P ! j)" by (simp add: d2_def dx_def dy_def dist2_def)
  have d2pos: "0 < d2" using close(1) d2 by (smt (verit) zero_less_divide_1_iff zero_less_power)
  have dpos: "0 < d" using d2pos by (simp add: d_def)
  have dd: "d * d = d2" using d2pos by (simp add: d_def)
  have dr: "d < r"
  proof (rule ccontr)
    assume "\<not> d < r"
    then have "r * r \<le> d * d" using r by (intro mult_mono) simp_all
    with close(2) d2 dd show False by simp
  qed
  let ?a = "(fst (P ! i) + dx * push, snd (P ! i) + dy * push)"
  let ?b = "(fst (P ! j) - dx * push, snd (P ! j) - dy * push)"
  have il: "i < length P" "i \<noteq> j" using ij by simp_all
  have res: "push_pair r (P ! i) i P j = P[i := ?a, j := ?b]"
    using close ij d2
    by (simp add: push_pair_def Let_def dx_def dy_def d2_def d_def push_def dist2_def)
  have qi: "push_pair r (P ! i) i P j ! i = ?a" and qj: "push_pair r (P ! i) i P j ! j = ?b"
    unfolding res using il ij by simp_all
  have fac: "1 + 2 * push = r / d" using dpos by (simp add: push_def field_simps)
  have "dist2 ?a ?b = (dx * (1 + 2 * push)) * (dx * (1 + 2 * push)) + (dy * (1 + 2 * push)) * (dy * (1 + 2 * push))"
    by (simp add: dist2_def dx_def dy_def algebra_simps)
  also have "\<dots> = d2 * ((1 + 2 * push) * (1 + 2 * push))" by (simp add: d2_def algebra_simps)
  also have "\<dots> = d2 * ((r / d) * (r / d))" unfolding fac by simp
  also have "\<dots> = (d * d) * ((r / d) * (r / d))" by (simp add: dd)
  also have "\<dots> = r * r" using dpos by simp
  finally show "dist2 (push_pair r (P ! i) i P j ! i) (push_pair r (P ! i) i P j ! j) = r * r"
    unfolding qi qj .
  have pd: "push * d = (r - d) / 2" using dpos by (simp add: push_def)
  have mv: "d2 * (push * push) = ((r - d) / 2) * ((r - d) / 2)"
  proof -
    have "d2 * (push * push) = (push * d) * (push * d)" by (simp add: dd[symmetric])
    then show ?thesis by (simp add: pd)
  qed
  have bound: "((r - d) / 2) * ((r - d) / 2) \<le> (r / 2) * (r / 2)"
    using dpos dr by (intro mult_mono) simp_all
  have "dist2 (P ! i) ?a = d2 * (push * push)" by (simp add: dist2_def d2_def algebra_simps)
  with mv bound show "dist2 (P ! i) (push_pair r (P ! i) i P j ! i) \<le> (r / 2) * (r / 2)"
    unfolding qi by simp
  have "dist2 (P ! j) ?b = d2 * (push * push)" by (simp add: dist2_def d2_def algebra_simps)
  with mv bound show "dist2 (P ! j) (push_pair r (P ! i) i P j ! j) \<le> (r / 2) * (r / 2)"
    unfolding qj by simp
qed

text \<open>
  An isolated close pair.  Every other point is at least one and a half times \<open>r_min\<close>
  from both points of the pair, and no pair among the other points satisfies the push
  condition.
\<close>

lemma isolated_pair_quiet:
  assumes r: "0 < r" and ij: "i < j" "j < length P"
    and close: "1 / 10 ^ 12 < dist2 (P ! i) (P ! j)" "dist2 (P ! i) (P ! j) < r * r"
    and iso: "\<And>k. k < length P \<Longrightarrow> k \<noteq> i \<Longrightarrow> k \<noteq> j \<Longrightarrow>
                (3 * r / 2) * (3 * r / 2) \<le> dist2 (P ! k) (P ! i)
              \<and> (3 * r / 2) * (3 * r / 2) \<le> dist2 (P ! k) (P ! j)"
    and rest: "\<And>a b. a < b \<Longrightarrow> b < length P \<Longrightarrow> a \<noteq> i \<Longrightarrow> a \<noteq> j \<Longrightarrow> b \<noteq> i \<Longrightarrow> b \<noteq> j \<Longrightarrow>
                \<not> (dist2 (P ! a) (P ! b) < r * r \<and> dist2 (P ! a) (P ! b) > 1 / 10 ^ 12)"
  shows "quiet r (push_pair r (P ! i) i P j)"
    and "\<And>a b. a < b \<Longrightarrow> b < length P \<Longrightarrow> (a, b) \<noteq> (i, j) \<Longrightarrow>
                   \<not> (dist2 (P ! a) (P ! b) < r * r \<and> dist2 (P ! a) (P ! b) > 1 / 10 ^ 12)"
proof -
  let ?Q = "push_pair r (P ! i) i P j"
  note ap = push_pair_apart[OF r ij close]
  have r32: "r * r \<le> (3 * r / 2) * (3 * r / 2)" using r by (simp add: field_simps)
  have farP: "r * r \<le> dist2 (P ! k) (P ! i)" "r * r \<le> dist2 (P ! k) (P ! j)"
    if "k < length P" "k \<noteq> i" "k \<noteq> j" for k
    using iso[OF that] r32 by linarith+
  have farQ: "r * r \<le> dist2 (P ! k) (?Q ! i)" "r * r \<le> dist2 (P ! k) (?Q ! j)"
    if "k < length P" "k \<noteq> i" "k \<noteq> j" for k
    using iso[OF that] far_after_move[OF _ ap(2) r] far_after_move[OF _ ap(3) r] by blast+
  have same: "?Q ! k = P ! k" if "k \<noteq> i" "k \<noteq> j" for k by (rule push_pair_other[OF that])
  show "\<not> (dist2 (P ! a) (P ! b) < r * r \<and> dist2 (P ! a) (P ! b) > 1 / 10 ^ 12)"
    if ab: "a < b" "b < length P" "(a, b) \<noteq> (i, j)" for a b
  proof (cases "a \<noteq> i \<and> a \<noteq> j \<and> b \<noteq> i \<and> b \<noteq> j")
    case True with rest ab show ?thesis by blast
  next
    case False
    have al: "a < length P" using ab by simp
    from False ab ij consider "a = i" "b \<noteq> j" "b \<noteq> i" | "a = j" "b \<noteq> i" "b \<noteq> j"
      | "b = i" "a \<noteq> i" "a \<noteq> j" | "b = j" "a \<noteq> i" "a \<noteq> j" by force
    then have "r * r \<le> dist2 (P ! a) (P ! b)"
    proof cases
      case 1 then show ?thesis using farP(1)[of b] ab by (simp add: dist2_commute)
    next
      case 2 then show ?thesis using farP(2)[of b] ab by (simp add: dist2_commute)
    next
      case 3 then show ?thesis using farP(1)[of a] al by simp
    next
      case 4 then show ?thesis using farP(2)[of a] al by simp
    qed
    then show ?thesis by simp
  qed
  show "quiet r ?Q"
    unfolding quiet_def push_pair_length
  proof (intro allI impI)
    fix a b assume ab: "a < length P" "b < length P" "a < b"
    show "\<not> (dist2 (?Q ! a) (?Q ! b) < r * r \<and> 1 / 10 ^ 12 < dist2 (?Q ! a) (?Q ! b))"
    proof (cases "a \<noteq> i \<and> a \<noteq> j \<and> b \<noteq> i \<and> b \<noteq> j")
      case True
      with rest[OF ab(3,2)] show ?thesis by (simp add: same)
    next
      case False
      from False ab ij consider "a = i" "b = j" | "a = i" "b \<noteq> j" "b \<noteq> i" | "a = j" "b \<noteq> i" "b \<noteq> j"
        | "b = i" "a \<noteq> i" "a \<noteq> j" | "b = j" "a \<noteq> i" "a \<noteq> j" by force
      then have "r * r \<le> dist2 (?Q ! a) (?Q ! b)"
      proof cases
        case 1 then show ?thesis using ap(1) by simp
      next
        case 2 then show ?thesis using farQ(1)[of b] ab by (simp add: dist2_commute same)
      next
        case 3 then show ?thesis using farQ(2)[of b] ab by (simp add: dist2_commute same)
      next
        case 4 then show ?thesis using farQ(1)[of a] ab by (simp add: same)
      next
        case 5 then show ?thesis using farQ(2)[of a] ab by (simp add: same)
      qed
      then show ?thesis by simp
    qed
  qed
qed

lemma spread_isolated_pair:
  assumes r: "0 < r" and ij: "i < j" "j < length P"
    and close: "1 / 10 ^ 12 < dist2 (P ! i) (P ! j)" "dist2 (P ! i) (P ! j) < r * r"
    and iso: "\<And>k. k < length P \<Longrightarrow> k \<noteq> i \<Longrightarrow> k \<noteq> j \<Longrightarrow>
                (3 * r / 2) * (3 * r / 2) \<le> dist2 (P ! k) (P ! i)
              \<and> (3 * r / 2) * (3 * r / 2) \<le> dist2 (P ! k) (P ! j)"
    and rest: "\<And>a b. a < b \<Longrightarrow> b < length P \<Longrightarrow> a \<noteq> i \<Longrightarrow> a \<noteq> j \<Longrightarrow> b \<noteq> i \<Longrightarrow> b \<noteq> j \<Longrightarrow>
                \<not> (dist2 (P ! a) (P ! b) < r * r \<and> dist2 (P ! a) (P ! b) > 1 / 10 ^ 12)"
    and iters: "0 < iters"
  shows "spread P r iters = Inr (push_pair r (P ! i) i P j)"
proof -
  let ?Q = "push_pair r (P ! i) i P j"
  note q = isolated_pair_quiet[OF r ij close iso rest]
  have first: "spread_pass r P = ?Q"
    by (rule spread_pass_single_push[OF r ij close(2) q(2) q(1)])
  have again: "(spread_pass r ^^ n) ?Q = ?Q" for n
    by (induction n) (simp_all add: spread_pass_quiet[OF q(1)])
  obtain n where n: "nat iters = Suc n" using iters by (cases "nat iters") auto
  have "(spread_pass r ^^ nat iters) P = ?Q"
    unfolding n funpow_Suc_right by (simp add: first again)
  then show ?thesis using r by (simp add: spread_def)
qed

text \<open>A single push moves each of its two points by half the missing distance, which is
  less than half of \<open>r_min\<close>, and no other point.\<close>

lemma push_pair_step:
  assumes r: "0 < r" and k: "k < length S"
  shows "dist2 (S ! k) (push_pair r p ii S jj ! k) \<le> (r / 2) * (r / 2)"
proof (cases "jj \<le> ii \<or> \<not> (dist2 p (S ! jj) < r * r \<and> dist2 p (S ! jj) > 1 / 10 ^ 12)")
  case True
  then have "push_pair r p ii S jj = S" by (auto simp: push_pair_skip push_pair_guard)
  then show ?thesis by (simp add: dist2_def)
next
  case False
  then have lt: "ii < jj" and close: "dist2 p (S ! jj) < r * r" "1 / 10 ^ 12 < dist2 p (S ! jj)"
    by auto
  define dx where "dx = fst p - fst (S ! jj)"
  define dy where "dy = snd p - snd (S ! jj)"
  define d2 where "d2 = dx * dx + dy * dy"
  define d where "d = sqrt d2"
  define push where "push = 0.5 * (r - d) / d"
  have d2: "d2 = dist2 p (S ! jj)" by (simp add: d2_def dx_def dy_def dist2_def)
  have d2pos: "0 < d2" using close(2) d2 by (smt (verit) zero_less_divide_1_iff zero_less_power)
  have dpos: "0 < d" using d2pos by (simp add: d_def)
  have dd: "d * d = d2" using d2pos by (simp add: d_def)
  have dr: "d < r"
  proof (rule ccontr)
    assume "\<not> d < r"
    then have "r * r \<le> d * d" using r by (intro mult_mono) simp_all
    with close(1) d2 dd show False by simp
  qed
  have pd: "push * d = (r - d) / 2" using dpos by (simp add: push_def)
  have mv: "d2 * (push * push) = ((r - d) / 2) * ((r - d) / 2)"
  proof -
    have "d2 * (push * push) = (push * d) * (push * d)" by (simp add: dd[symmetric])
    then show ?thesis by (simp add: pd)
  qed
  have bound: "((r - d) / 2) * ((r - d) / 2) \<le> (r / 2) * (r / 2)"
    using dpos dr by (intro mult_mono) simp_all
  have step: "dx * push * (dx * push) + dy * push * (dy * push) \<le> (r / 2) * (r / 2)"
  proof -
    have "dx * push * (dx * push) + dy * push * (dy * push) = d2 * (push * push)"
      by (simp add: d2_def algebra_simps)
    with mv bound show ?thesis by simp
  qed
  have res: "push_pair r p ii S jj
      = (S[ii := (fst (S ! ii) + dx * push, snd (S ! ii) + dy * push)])
          [jj := (fst (S ! jj) - dx * push, snd (S ! jj) - dy * push)]"
    using close lt
    by (simp add: push_pair_def Let_def dx_def dy_def d2_def d_def push_def dist2_def)
  have z: "(0::real) \<le> (r / 2) * (r / 2)" by simp
  consider "k = jj" | "k = ii" "k \<noteq> jj" | "k \<noteq> ii" "k \<noteq> jj" by blast
  then show ?thesis
  proof cases
    case 1 then show ?thesis using k lt step by (simp add: res dist2_def)
  next
    case 2 then show ?thesis using k lt step by (simp add: res dist2_def)
  next
    case 3 then show ?thesis using z by (simp add: res dist2_def)
  qed
qed

text \<open>
  A close pair on its own.  If no other point lies in the cell of \<open>i\<close> or of \<open>j\<close> or in a
  cell next to them, the two are compared with each other only, once, and with no other
  point: after the pass they stand where the single push puts them, whatever happens to
  the other points.
\<close>

lemma spread_point_Cons:
  "spread_point r (j # hot) S i
     = fold (\<lambda>jj S'. push_pair r (S ! i) i S' jj) hot (push_pair r (S ! i) i S j)"
  by (simp add: spread_point_def)

lemma push_pair_values:
  assumes "i < j" "j < length S" "length S = length P" "S ! i = P ! i" "S ! j = P ! j"
  shows "push_pair r p i S j ! i = push_pair r p i P j ! i"
    and "push_pair r p i S j ! j = push_pair r p i P j ! j"
  using assms by (auto simp: push_pair_def Let_def)

lemma spread_point_pair_alone_other:
  assumes ij: "i < j" "j < length P"
    and sep: "\<And>k. k < length P \<Longrightarrow> k \<noteq> i \<Longrightarrow> k \<noteq> j \<Longrightarrow>
                cell_of r (P ! k) \<notin> set (neigh_keys (cell_of r (P ! i)))
              \<and> cell_of r (P ! k) \<notin> set (neigh_keys (cell_of r (P ! j)))
              \<and> cell_of r (P ! i) \<notin> set (neigh_keys (cell_of r (P ! k)))
              \<and> cell_of r (P ! j) \<notin> set (neigh_keys (cell_of r (P ! k)))"
    and ii: "ii \<noteq> i" "ii < length P"
    and hot: "set hot \<subseteq> set (hot_of (build_buckets r P) (cell_of r (P ! ii)))"
  shows "length (fold (\<lambda>jj S'. push_pair r p ii S' jj) hot S) = length S
       \<and> fold (\<lambda>jj S'. push_pair r p ii S' jj) hot S ! i = S ! i
       \<and> fold (\<lambda>jj S'. push_pair r p ii S' jj) hot S ! j = S ! j"
  using hot
proof (induction hot arbitrary: S)
  case Nil show ?case by simp
next
  case (Cons jj hot)
  let ?S = "push_pair r p ii S jj"
  have jjh: "jj \<in> set (hot_of (build_buckets r P) (cell_of r (P ! ii)))" using Cons.prems by simp
  note hc = hot_cells[OF jjh]
  have keep: "?S ! i = S ! i \<and> ?S ! j = S ! j"
  proof (cases "jj \<le> ii")
    case True then show ?thesis by (simp add: push_pair_skip)
  next
    case False
    then have lt: "ii < jj" by simp
    have "ii \<noteq> j"
    proof
      assume e: "ii = j"
      with lt ij have "jj \<noteq> i" "jj \<noteq> j" by simp_all
      from sep[OF hc(1) this] hc(2) e show False by simp
    qed
    moreover have "jj \<noteq> i \<and> jj \<noteq> j"
    proof (rule ccontr)
      assume "\<not> (jj \<noteq> i \<and> jj \<noteq> j)"
      then have "jj = i \<or> jj = j" by blast
      with sep[OF ii(2) ii(1) \<open>ii \<noteq> j\<close>] hc(2) show False by auto
    qed
    ultimately show ?thesis using ii(1) by (simp add: push_pair_other)
  qed
  from Cons.IH[of ?S] Cons.prems keep show ?case by (simp add: push_pair_length)
qed

lemma spread_pass_pair_alone:
  assumes r: "0 < r" and ij: "i < j" "j < length P"
    and close: "dist2 (P ! i) (P ! j) < r * r"
    and sep: "\<And>k. k < length P \<Longrightarrow> k \<noteq> i \<Longrightarrow> k \<noteq> j \<Longrightarrow>
                cell_of r (P ! k) \<notin> set (neigh_keys (cell_of r (P ! i)))
              \<and> cell_of r (P ! k) \<notin> set (neigh_keys (cell_of r (P ! j)))
              \<and> cell_of r (P ! i) \<notin> set (neigh_keys (cell_of r (P ! k)))
              \<and> cell_of r (P ! j) \<notin> set (neigh_keys (cell_of r (P ! k)))"
  shows "length (spread_pass r P) = length P
       \<and> spread_pass r P ! i = push_pair r (P ! i) i P j ! i
       \<and> spread_pass r P ! j = push_pair r (P ! i) i P j ! j"
proof -
  let ?Q = "push_pair r (P ! i) i P j"
  let ?bs = "build_buckets r P"
  let ?step = "\<lambda>(k, ii) S. spread_point r (hot_of ?bs k) S ii"
  let ?vs = "visits ?bs"
  have il: "i < length P" using ij by simp
  then have "i \<in> set (map snd ?vs)" unfolding visits_props(2) by simp
  then obtain k where "(k, i) \<in> set ?vs" by auto
  then obtain pre post where vs: "?vs = pre @ (k, i) # post" by (meson split_list)
  have k: "k = cell_of r (P ! i)"
    by (rule visits_props(3)) (simp add: vs)
  have d: "distinct (map snd ?vs)" by (rule visits_props(1))
  have npre: "i \<notin> snd ` set pre" and npost: "i \<notin> snd ` set post"
    using d unfolding vs by auto
  have other: "length (fold ?step ws S) = length S \<and> fold ?step ws S ! i = S ! i
             \<and> fold ?step ws S ! j = S ! j"
    if "set ws \<subseteq> set ?vs" "i \<notin> snd ` set ws" for ws S
    using that
  proof (induction ws arbitrary: S)
    case Nil show ?case by simp
  next
    case (Cons w ws)
    obtain k' ii where w: "w = (k', ii)" by (cases w)
    have mem: "(k', ii) \<in> set ?vs" using Cons.prems(1) by (simp add: w)
    have k': "k' = cell_of r (P ! ii)" by (rule visits_props(3)[OF mem])
    have "ii \<in> set (map snd ?vs)" using mem by force
    then have iil: "ii < length P" unfolding visits_props(2) by simp
    have ne: "ii \<noteq> i" using Cons.prems(2) by (force simp: w)
    have one: "length (spread_point r (hot_of ?bs k') S ii) = length S
        \<and> spread_point r (hot_of ?bs k') S ii ! i = S ! i
        \<and> spread_point r (hot_of ?bs k') S ii ! j = S ! j"
      unfolding spread_point_def k'
      by (rule spread_point_pair_alone_other[OF ij sep ne iil]) simp_all
    from Cons.IH[of "spread_point r (hot_of ?bs k') S ii"] Cons.prems one show ?case
      by (simp add: w)
  qed
  let ?S1 = "fold ?step pre P"
  have subpre: "set pre \<subseteq> set ?vs" and subpost: "set post \<subseteq> set ?vs"
    unfolding vs by auto
  have s1: "length ?S1 = length P" "?S1 ! i = P ! i" "?S1 ! j = P ! j"
    using other[OF subpre npre, of P] by simp_all
  let ?hot = "hot_of ?bs (cell_of r (P ! i))"
  have jh: "j \<in> set ?hot" by (rule hot_has[OF close r ij(2)])
  have dh: "distinct ?hot" by (rule hot_of_distinct)
  have sub: "jj = i \<or> jj = j" if "jj \<in> set ?hot" for jj
    using hot_cells[OF that] sep[of jj] by blast
  have "mset ?hot = mset (j # remove1 j ?hot)" using jh by simp
  then have "spread_point r ?hot ?S1 i = spread_point r (j # remove1 j ?hot) ?S1 i"
    by (rule spread_point_order)
  also have "\<dots> = fold (\<lambda>jj S. push_pair r (P ! i) i S jj) (remove1 j ?hot)
                      (push_pair r (P ! i) i ?S1 j)"
    by (simp only: spread_point_Cons s1(2))
  also have "\<dots> = push_pair r (P ! i) i ?S1 j"
  proof (rule fold_fixed)
    fix jj assume "jj \<in> set (remove1 j ?hot)"
    then have "jj \<in> set ?hot" "jj \<noteq> j" using dh by auto
    with sub have "jj = i" by blast
    then show "push_pair r (P ! i) i (push_pair r (P ! i) i ?S1 j) jj = push_pair r (P ! i) i ?S1 j"
      by (simp add: push_pair_skip)
  qed
  finally have mid: "?step (k, i) ?S1 = push_pair r (P ! i) i ?S1 j" by (simp add: k)
  let ?S2 = "push_pair r (P ! i) i ?S1 j"
  have jl: "j < length ?S1" using ij s1(1) by simp
  have s2: "length ?S2 = length P" "?S2 ! i = ?Q ! i" "?S2 ! j = ?Q ! j"
    using push_pair_values[OF ij(1) jl s1] s1(1) by (simp_all add: push_pair_length)
  have s3: "length (fold ?step post ?S2) = length ?S2" "fold ?step post ?S2 ! i = ?S2 ! i"
    "fold ?step post ?S2 ! j = ?S2 ! j"
    using other[OF subpost npost, of ?S2] by simp_all
  have "spread_pass r P = fold ?step post ?S2"
    unfolding spread_pass_visits vs using mid by simp
  with s2 s3 show ?thesis by simp
qed

section \<open>Properties of the export\<close>

lemma fold_vectors_dom:
  "dom (fst (fold (\<lambda>(pid, model, d, v) (vec_by_id, dim). (vec_by_id(pid \<mapsto> unit_vec v), Some d))
                  rows (m, dm)))
     = dom m \<union> fst ` set rows"
proof (induction rows arbitrary: m dm)
  case Nil show ?case by simp
next
  case (Cons r rows)
  obtain pid model d v where r: "r = (pid, model, d, v)" by (cases r) auto
  show ?case using Cons.IH[of "m(pid \<mapsto> unit_vec v)" "Some d"] by (auto simp: r)
qed

lemma load_vectors_None:
  assumes "pid \<in> set ids"
  shows "fst (load_vectors (embeddings d) ids) pid = None \<longleftrightarrow> \<not> has_embedding d pid"
proof -
  let ?rows = "filter (\<lambda>(pid, model, d, v). model = EMB_MODEL \<and> pid \<in> set ids) (embeddings d)"
  have "dom (fst (load_vectors (embeddings d) ids)) = fst ` set ?rows"
    unfolding load_vectors_def using fold_vectors_dom[of ?rows Map.empty None] by simp
  moreover have "pid \<in> fst ` set ?rows \<longleftrightarrow> has_embedding d pid"
    using assms by (force simp: has_embedding_def)
  ultimately show ?thesis by (metis domIff)
qed

lemma missing_eq:
  "filter (\<lambda>pid. fst (load_vectors (embeddings d) (map p_id (papers d))) pid = None) (map p_id (papers d))
     = map p_id (filter (\<lambda>p. \<not> has_embedding d (p_id p)) (papers d))"
proof -
  have "fst (load_vectors (embeddings d) (map p_id (papers d))) (p_id p) = None
          \<longleftrightarrow> \<not> has_embedding d (p_id p)" if "p \<in> set (papers d)" for p
    using that by (intro load_vectors_None) simp
  then show ?thesis by (simp add: filter_map comp_def cong: filter_cong)
qed

lemma prepare_empty:
  "papers d = [] \<Longrightarrow> prepare d = Inl (RuntimeError ''No kept/clustered papers. Run filter & cluster first.'')"
  by (simp add: prepare_def)

lemma prepare_missing:
  assumes "papers d \<noteq> []" "\<exists>p \<in> set (papers d). \<not> has_embedding d (p_id p)"
  shows "prepare d = Inl (MissingEmbeddings (length (filter (\<lambda>p. \<not> has_embedding d (p_id p)) (papers d))))"
proof -
  let ?miss = "filter (\<lambda>p. \<not> has_embedding d (p_id p)) (papers d)"
  have ne: "?miss \<noteq> []" using assms(2) by (auto simp: filter_empty_conv)
  show ?thesis
    using assms(1) ne missing_eq[of d]
    by (simp add: prepare_def Let_def case_prod_beta)
qed

lemma export_error_no_write:
  "build_payload be np rng now cfg d = Inl e \<Longrightarrow> export_json_graph be np rng now cfg d fs = (Inl e, fs)"
  by (simp add: export_json_graph_def)

lemma build_payload_prepare_error:
  "prepare d = Inl e \<Longrightarrow> build_payload be np rng now cfg d = Inl e"
  by (simp add: build_payload_def)

text \<open>
  Claim C9.  With no papers the export raises the \<open>RuntimeError\<close> of step 1, with a paper
  that has no embedding the \<open>RuntimeError\<close> of step 4 (counting the papers without one);
  in both cases, and whenever the export raises, the file system is left as it was.
\<close>

theorem export_precondition_failure:
  "(papers d = [] \<longrightarrow>
      export_json_graph be np rng now cfg d fs
        = (Inl (RuntimeError ''No kept/clustered papers. Run filter & cluster first.''), fs))
   \<and> (papers d \<noteq> [] \<and> (\<exists>p \<in> set (papers d). \<not> has_embedding d (p_id p)) \<longrightarrow>
      export_json_graph be np rng now cfg d fs
        = (Inl (MissingEmbeddings (length (filter (\<lambda>p. \<not> has_embedding d (p_id p)) (papers d)))), fs))
   \<and> (\<forall>e. fst (export_json_graph be np rng now cfg d fs) = Inl e \<longrightarrow>
           snd (export_json_graph be np rng now cfg d fs) = fs)"
proof (intro conjI impI allI)
  assume "papers d = []"
  then show "export_json_graph be np rng now cfg d fs
        = (Inl (RuntimeError ''No kept/clustered papers. Run filter & cluster first.''), fs)"
    by (intro export_error_no_write build_payload_prepare_error prepare_empty)
next
  assume a: "papers d \<noteq> [] \<and> (\<exists>p \<in> set (papers d). \<not> has_embedding d (p_id p))"
  then show "export_json_graph be np rng now cfg d fs
        = (Inl (MissingEmbeddings (length (filter (\<lambda>p. \<not> has_embedding d (p_id p)) (papers d)))), fs)"
    by (intro export_error_no_write build_payload_prepare_error prepare_missing) auto
next
  fix e assume "fst (export_json_graph be np rng now cfg d fs) = Inl e"
  then show "snd (export_json_graph be np rng now cfg d fs) = fs"
    by (auto simp: export_json_graph_def split: sum.splits if_splits)
qed

theorem export_precondition_failure_witness:
  "papers no_papers_db = []
   \<and> export_json_graph example_be example_np 0 ''t'' default_cfg no_papers_db Map.empty
       = (Inl (RuntimeError ''No kept/clustered papers. Run filter & cluster first.''), Map.empty)
   \<and> papers missing_vector_db \<noteq> []
   \<and> \<not> has_embedding missing_vector_db ''p2''
   \<and> export_json_graph example_be example_np 0 ''t'' default_cfg missing_vector_db Map.empty
       = (Inl (MissingEmbeddings 1), Map.empty)"
proof -
  have a: "papers no_papers_db = []" by (simp add: no_papers_db_def)
  have b: "papers missing_vector_db \<noteq> []" by (simp add: missing_vector_db_def)
  have c: "\<not> has_embedding missing_vector_db ''p2''"
    by (simp add: has_embedding_def missing_vector_db_def)
  have h1: "has_embedding missing_vector_db ''p1''"
    by (simp add: has_embedding_def missing_vector_db_def EMB_MODEL_def)
  have n: "length (filter (\<lambda>p. \<not> has_embedding missing_vector_db (p_id p)) (papers missing_vector_db)) = 1"
    using c h1 by (simp add: missing_vector_db_def)
  have ex: "\<exists>p \<in> set (papers missing_vector_db). \<not> has_embedding missing_vector_db (p_id p)"
    using c by (simp add: missing_vector_db_def)
  from export_precondition_failure[of no_papers_db example_be example_np 0 "''t''" default_cfg Map.empty]
       export_precondition_failure[of missing_vector_db example_be example_np 0 "''t''" default_cfg Map.empty]
       a b c ex n
  show ?thesis by simp
qed

lemma prepare_single:
  assumes "papers d = [p]" "has_embedding d (p_id p)"
  shows "\<exists>v dm. prepare d = Inr \<lparr>pr_ids = [p_id p], pr_cluster_ids = [p_cid p], pr_dim = dm, pr_X = [v]\<rparr>"
proof -
  obtain vec_by_id dm where lv: "load_vectors (embeddings d) [p_id p] = (vec_by_id, dm)"
    by (cases "load_vectors (embeddings d) [p_id p]")
  have "fst (load_vectors (embeddings d) [p_id p]) (p_id p) \<noteq> None"
    using load_vectors_None[of "p_id p" "[p_id p]" d] assms(2) by simp
  then obtain v where v: "vec_by_id (p_id p) = Some v" using lv by auto
  have "prepare d = Inr \<lparr>pr_ids = [p_id p], pr_cluster_ids = [p_cid p], pr_dim = dm, pr_X = [v]\<rparr>"
    using assms(1) lv v by (simp add: prepare_def Let_def vstack_def)
  then show ?thesis by blast
qed

lemma build_edges_single: "build_edges np cfg [v] [c] = []"
proof -
  have n: "neighbors np [v] [c] (cfg_top_k cfg) (cfg_min_sim cfg) (cfg_same_cluster_only cfg) = [[]]"
    by (simp add: neighbors_def)
  have m: "all_mst_edges [v] [c] (cfg_add_cluster_mst cfg) = []"
    by (simp add: all_mst_edges_def first_seen_def cluster_indices_def cluster_mst_def)
  show ?thesis
    unfolding build_edges_def n m
    by (simp add: dedup_edges_def emit_neighbors_def emit_mst_def)
qed

lemma coords_single: "coords be rng cfg [v] edges = Inr (None, ''none'')"
  by (simp add: coords_def)

text \<open>
  Claim C8, as the code has it.  With exactly one paper, which has an embedding, the
  export succeeds and writes a payload with one node and no link; the layout is skipped
  whatever was requested: the node carries no coordinates, \<open>coords.included\<close> is false and
  \<open>coords.method\<close> is \<open>none\<close>.
\<close>

theorem export_single_item:
  "papers d = [p] \<and> has_embedding d (p_id p) \<longrightarrow>
     (\<exists>pl. export_json_graph be np rng now cfg d fs
              = (Inr (if cfg_gzip_out cfg then cfg_out_path cfg @ ''.gz'' else cfg_out_path cfg),
                 fs((if cfg_gzip_out cfg then cfg_out_path cfg @ ''.gz'' else cfg_out_path cfg) \<mapsto> pl))
         \<and> length (nodes pl) = 1
         \<and> map n_xy (nodes pl) = [None]
         \<and> map n_cid (nodes pl) = [p_cid p]
         \<and> links pl = []
         \<and> \<not> coords_included pl
         \<and> coords_method_used pl = ''none'')"
proof
  assume a: "papers d = [p] \<and> has_embedding d (p_id p)"
  then obtain v dm where pr: "prepare d = Inr \<lparr>pr_ids = [p_id p], pr_cluster_ids = [p_cid p], pr_dim = dm, pr_X = [v]\<rparr>"
    using prepare_single by blast
  from a have pd: "papers d = [p]" by simp
  obtain pl where pl: "build_payload be np rng now cfg d = Inr pl"
      "length (nodes pl) = 1" "map n_xy (nodes pl) = [None]" "map n_cid (nodes pl) = [p_cid p]"
      "links pl = []" "\<not> coords_included pl" "coords_method_used pl = ''none''"
    by (simp add: build_payload_def pr pd build_edges_single coords_single build_nodes_def
          build_links_def Let_def)
  show "\<exists>pl. export_json_graph be np rng now cfg d fs
              = (Inr (if cfg_gzip_out cfg then cfg_out_path cfg @ ''.gz'' else cfg_out_path cfg),
                 fs((if cfg_gzip_out cfg then cfg_out_path cfg @ ''.gz'' else cfg_out_path cfg) \<mapsto> pl))
         \<and> length (nodes pl) = 1
         \<and> map n_xy (nodes pl) = [None]
         \<and> map n_cid (nodes pl) = [p_cid p]
         \<and> links pl = []
         \<and> \<not> coords_included pl
         \<and> coords_method_used pl = ''none''"
    apply (rule exI[of _ pl])
    using pl by (simp add: export_json_graph_def)
qed

lemma one_paper_has: "has_embedding one_paper_db ''p1''"
  by (simp add: has_embedding_def one_paper_db_def EMB_MODEL_def)

theorem export_single_item_witness:
  "papers one_paper_db = [\<lparr>p_id = ''p1'', p_cid = 0\<rparr>]
   \<and> has_embedding one_paper_db (p_id \<lparr>p_id = ''p1'', p_cid = 0\<rparr>)
   \<and> (\<exists>pl. export_json_graph example_be example_np 0 ''t'' default_cfg one_paper_db Map.empty
              = (Inr ''force_graph.json'', [''force_graph.json'' \<mapsto> pl])
          \<and> length (nodes pl) = 1 \<and> links pl = [] \<and> coords_method_used pl = ''none'')"
proof -
  have a: "papers one_paper_db = [\<lparr>p_id = ''p1'', p_cid = 0\<rparr>]" by (simp add: one_paper_db_def)
  have b: "has_embedding one_paper_db (p_id \<lparr>p_id = ''p1'', p_cid = 0\<rparr>)"
    using one_paper_has by simp
  from export_single_item[of one_paper_db "\<lparr>p_id = ''p1'', p_cid = 0\<rparr>" example_be example_np 0
         "''t''" default_cfg Map.empty] a b
  obtain pl where "export_json_graph example_be example_np 0 ''t'' default_cfg one_paper_db Map.empty
              = (Inr ''force_graph.json'', [''force_graph.json'' \<mapsto> pl])"
          "length (nodes pl) = 1" "links pl = []" "coords_method_used pl = ''none''"
    by (auto simp: default_cfg_def)
  with a b show ?thesis by blast
qed

text \<open>
  Claim C8 says the layout returns one coordinate pair.  Here coordinates are requested
  (method \<open>fr\<close>) for one paper, and the payload written has a node without coordinates
  and reports that none are included.
\<close>

theorem export_single_item_counterexample:
  "cfg_include_coords default_cfg \<and> cfg_coords_method default_cfg = ''fr''
   \<and> length (papers one_paper_db) = 1
   \<and> (\<exists>pl. export_json_graph example_be example_np 0 ''t'' default_cfg one_paper_db Map.empty
              = (Inr ''force_graph.json'', [''force_graph.json'' \<mapsto> pl])
          \<and> map n_xy (nodes pl) = [None] \<and> \<not> coords_included pl)"
proof -
  have a: "papers one_paper_db = [\<lparr>p_id = ''p1'', p_cid = 0\<rparr>]" by (simp add: one_paper_db_def)
  obtain v dm where pr: "prepare one_paper_db
       = Inr \<lparr>pr_ids = [''p1''], pr_cluster_ids = [0], pr_dim = dm, pr_X = [v]\<rparr>"
    using prepare_single[OF a] one_paper_has by auto
  have "\<exists>pl. build_payload example_be example_np 0 ''t'' default_cfg one_paper_db = Inr pl
          \<and> map n_xy (nodes pl) = [None] \<and> \<not> coords_included pl"
    by (simp add: build_payload_def pr a build_edges_single coords_single build_nodes_def Let_def)
  then obtain pl where pl: "build_payload example_be example_np 0 ''t'' default_cfg one_paper_db = Inr pl"
    "map n_xy (nodes pl) = [None]" "\<not> coords_included pl" by (elim exE conjE)
  have "export_json_graph example_be example_np 0 ''t'' default_cfg one_paper_db Map.empty
              = (Inr ''force_graph.json'', [''force_graph.json'' \<mapsto> pl])"
    unfolding export_json_graph_def pl(1) by (simp add: default_cfg_def)
  with pl(2,3) a show ?thesis by (auto simp: default_cfg_def)
qed

section \<open>Example runs of the layout step\<close>

lemma lower_examples:
  "lower ''fr'' = ''fr''" "lower ''FA2'' = ''fa2''" "lower ''fa2'' = ''fa2''"
  "lower ''umap'' = ''umap''" "lower ''pca'' = ''pca''"
  by code_simp+

lemma two_papers_vectors:
  "load_vectors (embeddings two_papers_db) [''p1'', ''p2'']
     = ([''p1'' \<mapsto> unit_vec [1, 0], ''p2'' \<mapsto> unit_vec [0, 1]], Some 2)"
  by (simp add: load_vectors_def two_papers_db_def EMB_MODEL_def)

lemma two_papers_prepare:
  "prepare two_papers_db
     = Inr \<lparr>pr_ids = [''p1'', ''p2''], pr_cluster_ids = [0, 0], pr_dim = Some 2,
            pr_X = [unit_vec [1, 0], unit_vec [0, 1]]\<rparr>"
proof -
  have p: "papers two_papers_db = [\<lparr>p_id = ''p1'', p_cid = 0\<rparr>, \<lparr>p_id = ''p2'', p_cid = 0\<rparr>]"
    by (simp add: two_papers_db_def)
  show ?thesis
    unfolding prepare_def p
    by (simp add: two_papers_vectors Let_def vstack_def unit_vec_def)
qed

lemma two_papers_requested:
  "layout_requested (method_cfg ''FA2'') [unit_vec [1, 0], unit_vec [0, 1]]"
  "layout_requested (method_cfg ''fa2'') [unit_vec [1, 0], unit_vec [0, 1]]"
  "layout_requested (method_cfg ''umap'') [unit_vec [1, 0], unit_vec [0, 1]]"
  "layout_requested (method_cfg ''pca'') [unit_vec [1, 0], unit_vec [0, 1]]"
  "layout_requested default_cfg [unit_vec [1, 0], unit_vec [0, 1]]"
  by (simp_all add: layout_requested_def method_cfg_def default_cfg_def lower_examples)

lemma example_requested: "layout_requested default_cfg example_X"
  by (simp add: layout_requested_def default_cfg_def lower_examples example_X_def)

lemma fallback_be_fa2:
  "run_layout fallback_be rng (method_cfg ''FA2'') X edges = Inr (Some [(0, 0), (1, 1)], ''fr'')"
  by (simp add: run_layout_def method_cfg_def default_cfg_def lower_examples fallback_be_def)

lemma fallback_be_fr:
  "run_layout fallback_be rng default_cfg X edges = Inr (Some [(0, 0), (1, 1)], ''fr'')"
  by (simp add: run_layout_def default_cfg_def lower_examples fallback_be_def)

lemma fallback_be_umap:
  "run_layout fallback_be rng (method_cfg ''umap'') X edges = Inr (Some [(0, 1), (1, 0)], ''pca'')"
  by (simp add: run_layout_def method_cfg_def default_cfg_def lower_examples fallback_be_def)

lemma example_be_fa2:
  "run_layout example_be rng (method_cfg ''fa2'') X edges = Inr (Some [(real rng, 0), (1, 1)], ''fa2'')"
  by (simp add: run_layout_def method_cfg_def default_cfg_def lower_examples example_be_def)

lemma example_be_umap:
  "run_layout example_be rng (method_cfg ''umap'') X edges = Inr (Some [(0, 0), (1, 1)], ''umap'')"
  by (simp add: run_layout_def method_cfg_def default_cfg_def lower_examples example_be_def)

lemma example_be_pca:
  "run_layout example_be rng (method_cfg ''pca'') X edges = Inr (Some [(0, 0), (1, 1)], ''pca'')"
  by (simp add: run_layout_def method_cfg_def default_cfg_def lower_examples example_be_def)

lemma chain_be_fr:
  "run_layout chain_be rng default_cfg X edges
     = Inr (Some [(0, 0), (1 / 200, 0), (11 / 1000, 0), (1, 1)], ''fr'')"
  by (simp add: run_layout_def default_cfg_def lower_examples chain_be_def)

lemma chain_be_pca:
  "run_layout chain_be rng (method_cfg ''pca'') X edges
     = Inr (Some [(0, 0), (1 / 200, 0), (11 / 1000, 0), (1, 1)], ''pca'')"
  by (simp add: run_layout_def method_cfg_def default_cfg_def lower_examples chain_be_def)

lemma spread_far2: "spread [(0, 0), (1, 1)] (1 / 100) 1 = Inr [(0, 0), (1, 1)]"
  by (rule spread_quiet[OF quiet_two]) (simp_all add: dist2_def)

lemma spread_far2y: "spread [(0, 0), (0, 1)] (1 / 100) 1 = Inr [(0, 0), (0, 1)]"
  by (rule spread_quiet[OF quiet_two]) (simp_all add: dist2_def)

lemma spread_far2a: "spread [(0, 1), (1, 0)] (1 / 100) 1 = Inr [(0, 1), (1, 0)]"
  by (rule spread_quiet[OF quiet_two]) (simp_all add: dist2_def)

lemma normalize_diag: "normalize_coords [(0, 0), (1, 1)] = Inr [(0, 0), (1, 1)]"
  by (simp add: normalize_coords_def axis_min_def axis_max_def Let_def)

lemma normalize_anti: "normalize_coords [(0, 1), (1, 0)] = Inr [(0, 1), (1, 0)]"
  by (simp add: normalize_coords_def axis_min_def axis_max_def Let_def)

lemma normalize_collapsed: "normalize_coords [(1, 0), (1, 1)] = Inr [(0, 0), (0, 1)]"
  by (simp add: normalize_coords_def axis_min_def axis_max_def Let_def)

lemma normalize_chain:
  "normalize_coords [(0, 0), (1 / 200, 0), (11 / 1000, 0), (1, 1)]
     = Inr [(0, 0), (1 / 200, 0), (11 / 1000, 0), (1, 1)]"
  by (simp add: normalize_coords_def axis_min_def axis_max_def Let_def)

lemma canvas_diag: "canvas_map (method_cfg m) [(0, 0), (1, 1)] = [(24, 24), (976, 676)]"
  by (simp add: canvas_map_def method_cfg_def default_cfg_def to_int32_def)

lemma canvas_diag_default: "canvas_map default_cfg [(0, 0), (1, 1)] = [(24, 24), (976, 676)]"
  by (simp add: canvas_map_def default_cfg_def to_int32_def)

lemma canvas_y: "canvas_map (method_cfg m) [(0, 0), (0, 1)] = [(24, 24), (24, 676)]"
  by (simp add: canvas_map_def method_cfg_def default_cfg_def to_int32_def)

lemma floor_examples:
  "\<lfloor>2162 / 100 :: real\<rfloor> = 21" "\<lfloor>28046 / 1000 :: real\<rfloor> = 28" "\<lfloor>37566 / 1000 :: real\<rfloor> = 37"
  "\<lfloor>2876 / 100 :: real\<rfloor> = 28" "\<lfloor>34472 / 1000 :: real\<rfloor> = 34"
  by (simp_all add: floor_eq_iff)

lemma canvas_chain:
  "canvas_map default_cfg [(- (1 / 400), 0), (17 / 4000, 0), (57 / 4000, 0), (1, 1)]
     = [(21, 24), (28, 24), (37, 24), (976, 676)]"
proof -
  have "24 + - (1 / 400) * 952 = (2162 / 100 :: real)" "24 + 17 / 4000 * 952 = (28046 / 1000 :: real)"
       "24 + 57 / 4000 * 952 = (37566 / 1000 :: real)" by simp_all
  then show ?thesis
    by (simp add: canvas_map_def default_cfg_def to_int32_def floor_examples)
qed

lemma canvas_chain_plain:
  "canvas_map (method_cfg m) [(0, 0), (1 / 200, 0), (11 / 1000, 0), (1, 1)]
     = [(24, 24), (28, 24), (34, 24), (976, 676)]"
proof -
  have "24 + 1 / 200 * 952 = (2876 / 100 :: real)" "24 + 11 / 1000 * 952 = (34472 / 1000 :: real)"
    by simp_all
  then show ?thesis
    by (simp add: canvas_map_def method_cfg_def default_cfg_def to_int32_def floor_examples)
qed

lemma two_nodes:
  "\<exists>ns. build_nodes (cfg_compact (method_cfg m)) (papers two_papers_db) (Some [a, b]) = Inr ns
       \<and> map n_xy ns = [Some a, Some b]"
  by (simp add: build_nodes_def two_papers_db_def enumerate_eq_zip upt_rec)

lemma fallback_coords:
  "coords fallback_be rng (method_cfg ''FA2'') [unit_vec [1, 0], unit_vec [0, 1]] edges
     = Inr (Some [(24, 24), (976, 676)], ''fr'')"
proof -
  have g: "cfg_include_coords (method_cfg ''FA2'')
       \<and> length [unit_vec [1, 0], unit_vec [0, 1]] \<ge> 2
       \<and> lower (cfg_coords_method (method_cfg ''FA2'')) \<noteq> ''none''"
    using two_papers_requested(1) by (simp add: layout_requested_def)
  show ?thesis
    unfolding coords_def using g
    by (simp add: fallback_be_fa2 normalize_diag declutter_def spread_far2 canvas_diag)
qed

lemma fallback_coords_fr:
  "coords fallback_be rng default_cfg [unit_vec [1, 0], unit_vec [0, 1]] edges
     = Inr (Some [(24, 24), (976, 676)], ''fr'')"
proof -
  have g: "cfg_include_coords default_cfg
       \<and> length [unit_vec [1, 0], unit_vec [0, 1]] \<ge> 2
       \<and> lower (cfg_coords_method default_cfg) \<noteq> ''none''"
    using two_papers_requested(5) by (simp add: layout_requested_def)
  show ?thesis
    unfolding coords_def using g
    by (simp add: fallback_be_fr normalize_diag declutter_def spread_far2 canvas_diag_default)
qed

lemma fa2_coords0:
  "coords example_be 0 (method_cfg ''fa2'') [unit_vec [1, 0], unit_vec [0, 1]] edges
     = Inr (Some [(24, 24), (976, 676)], ''fa2'')"
proof -
  have g: "cfg_include_coords (method_cfg ''fa2'')
       \<and> length [unit_vec [1, 0], unit_vec [0, 1]] \<ge> 2
       \<and> lower (cfg_coords_method (method_cfg ''fa2'')) \<noteq> ''none''"
    using two_papers_requested(2) by (simp add: layout_requested_def)
  show ?thesis
    unfolding coords_def using g
    by (simp add: example_be_fa2 normalize_diag declutter_def spread_far2 canvas_diag)
qed

lemma fa2_coords1:
  "coords example_be 1 (method_cfg ''fa2'') [unit_vec [1, 0], unit_vec [0, 1]] edges
     = Inr (Some [(24, 24), (24, 676)], ''fa2'')"
proof -
  have g: "cfg_include_coords (method_cfg ''fa2'')
       \<and> length [unit_vec [1, 0], unit_vec [0, 1]] \<ge> 2
       \<and> lower (cfg_coords_method (method_cfg ''fa2'')) \<noteq> ''none''"
    using two_papers_requested(2) by (simp add: layout_requested_def)
  show ?thesis
    unfolding coords_def using g
    by (simp add: example_be_fa2 normalize_collapsed declutter_def spread_far2y canvas_y)
qed

lemma quiet3: "quiet (1 / 100) [(0, 0), (0, 0), (1, 1)]"
  by (simp add: quiet_def dist2_def less_Suc_eq numeral_3_eq_3 nth_Cons')

lemma sqrt_1_40000: "sqrt (1 / 40000) = 1 / 200"
  by (rule real_sqrt_unique) (simp_all add: power2_eq_square)

lemma sqrt_9_160000: "sqrt (9 / 160000) = 3 / 400"
  by (rule real_sqrt_unique) (simp_all add: power2_eq_square)

lemma sqrt_49_4000000: "sqrt (49 / 4000000) = 7 / 2000"
  by (rule real_sqrt_unique) (simp_all add: power2_eq_square)

lemma buckets_near3:
  "build_buckets (1 / 100) [(0, 0), (0, 0), (1 / 200, 0), (1, 1)]
     = [((0, 0), [0, 1, 2]), ((100, 100), [3])]"
  by (simp add: build_buckets_def bucket_add_def cell_of_def enumerate_eq_zip upt_rec)

lemma hot_near3:
  "hot_of [((0, 0), [0, Suc 0, 2]), ((100, 100), [3])] (0, 0) = [0, Suc 0, 2]"
  "hot_of [((0, 0), [0, Suc 0, 2]), ((100, 100), [3])] (100, 100) = [3]"
  by (simp_all add: hot_of_def neigh_keys_def)

lemma pass_near3:
  "spread_pass (1 / 100) [(0, 0), (0, 0), (1 / 200, 0), (1, 1)]
     = [(- 1 / 400, 0), (- 1 / 800, 0), (7 / 800, 0), (1, 1)]"
  by (simp add: spread_pass_def buckets_near3 spread_bucket_def hot_near3 spread_point_def
        push_pair_def Let_def sqrt_1_40000 sqrt_9_160000)

lemma buckets_far_pair:
  "build_buckets (1 / 100) [(0, 0), (0, 0), (1, 1), (201 / 200, 1)]
     = [((0, 0), [0, 1]), ((100, 100), [2, 3])]"
  by (simp add: build_buckets_def bucket_add_def cell_of_def enumerate_eq_zip upt_rec)

lemma hot_far_pair:
  "hot_of [((0, 0), [0, Suc 0]), ((100, 100), [2, 3])] (0, 0) = [0, Suc 0]"
  "hot_of [((0, 0), [0, Suc 0]), ((100, 100), [2, 3])] (100, 100) = [2, 3]"
  by (simp_all add: hot_of_def neigh_keys_def)

lemma pass_far_pair:
  "spread_pass (1 / 100) [(0, 0), (0, 0), (1, 1), (201 / 200, 1)]
     = [(0, 0), (0, 0), (399 / 400, 1), (403 / 400, 1)]"
  by (simp add: spread_pass_def buckets_far_pair spread_bucket_def hot_far_pair spread_point_def
        push_pair_def Let_def sqrt_1_40000)

text \<open>
  Claim C10, as the code has it.  Take two points at squared distance at most \<open>1e-12\<close>
  such that every other point is, along one axis at least, two cell widths or more away
  from each of them.  Then one pass, which is what the export runs, leaves the two
  exactly where they were, for every \<open>r_min\<close> other than zero and whatever happens among
  the other points.  More generally the two may have other points nearby, as long as
  they belong to a group \<open>U\<close> of points without a pair that satisfies the push condition
  and without a point outside the group within two cell widths on both axes: a pass
  leaves the whole group in place.  For any number of passes the same holds in a layout
  in which no pair satisfies the push condition.
\<close>

theorem spread_coincident_pair:
  "(r_min \<noteq> 0 \<and> i < j \<and> j < length P \<and> dist2 (P ! i) (P ! j) \<le> 1 / 10 ^ 12
      \<and> (\<forall>k < length P. k \<noteq> i \<and> k \<noteq> j \<longrightarrow>
            (2 * \<bar>r_min\<bar> \<le> \<bar>fst (P ! k) - fst (P ! i)\<bar> \<or> 2 * \<bar>r_min\<bar> \<le> \<bar>snd (P ! k) - snd (P ! i)\<bar>)
          \<and> (2 * \<bar>r_min\<bar> \<le> \<bar>fst (P ! k) - fst (P ! j)\<bar> \<or> 2 * \<bar>r_min\<bar> \<le> \<bar>snd (P ! k) - snd (P ! j)\<bar>))
      \<longrightarrow> (\<exists>Q. spread P r_min 1 = Inr Q \<and> length Q = length P
               \<and> Q ! i = P ! i \<and> Q ! j = P ! j \<and> dist2 (Q ! i) (Q ! j) \<le> 1 / 10 ^ 12))
   \<and> (r_min \<noteq> 0 \<and> i < j \<and> j < length P \<and> dist2 (P ! i) (P ! j) \<le> 1 / 10 ^ 12
      \<and> i \<in> U \<and> j \<in> U
      \<and> (\<forall>a < length P. \<forall>b < length P.
            a < b \<and> (a \<in> U \<or> b \<in> U)
            \<and> \<not> (2 * \<bar>r_min\<bar> \<le> \<bar>fst (P ! a) - fst (P ! b)\<bar>
                  \<or> 2 * \<bar>r_min\<bar> \<le> \<bar>snd (P ! a) - snd (P ! b)\<bar>)
            \<longrightarrow> a \<in> U \<and> b \<in> U
              \<and> \<not> (dist2 (P ! a) (P ! b) < r_min * r_min \<and> dist2 (P ! a) (P ! b) > 1 / 10 ^ 12))
      \<longrightarrow> (\<exists>Q. spread P r_min 1 = Inr Q \<and> length Q = length P
               \<and> (\<forall>k \<in> U. Q ! k = P ! k) \<and> dist2 (Q ! i) (Q ! j) \<le> 1 / 10 ^ 12))
   \<and> (r_min \<noteq> 0 \<and> quiet r_min P \<and> i < j \<and> j < length P
        \<and> dist2 (P ! i) (P ! j) \<le> 1 / 10 ^ 12 \<longrightarrow>
        (\<exists>Q. spread P r_min iters = Inr Q \<and> Q ! i = P ! i \<and> Q ! j = P ! j
             \<and> dist2 (Q ! i) (Q ! j) \<le> 1 / 10 ^ 12))"
proof (intro conjI impI)
  assume a: "r_min \<noteq> 0 \<and> i < j \<and> j < length P \<and> dist2 (P ! i) (P ! j) \<le> 1 / 10 ^ 12
      \<and> (\<forall>k < length P. k \<noteq> i \<and> k \<noteq> j \<longrightarrow>
            (2 * \<bar>r_min\<bar> \<le> \<bar>fst (P ! k) - fst (P ! i)\<bar> \<or> 2 * \<bar>r_min\<bar> \<le> \<bar>snd (P ! k) - snd (P ! i)\<bar>)
          \<and> (2 * \<bar>r_min\<bar> \<le> \<bar>fst (P ! k) - fst (P ! j)\<bar> \<or> 2 * \<bar>r_min\<bar> \<le> \<bar>snd (P ! k) - snd (P ! j)\<bar>))"
  then have r: "r_min \<noteq> 0" and ij: "i < j" "j < length P"
    and near: "dist2 (P ! i) (P ! j) \<le> 1 / 10 ^ 12" by simp_all
  have far: "cell_of r_min (P ! k) \<notin> set (neigh_keys (cell_of r_min (P ! i)))"
            "cell_of r_min (P ! k) \<notin> set (neigh_keys (cell_of r_min (P ! j)))"
            "cell_of r_min (P ! i) \<notin> set (neigh_keys (cell_of r_min (P ! k)))"
            "cell_of r_min (P ! j) \<notin> set (neigh_keys (cell_of r_min (P ! k)))"
    if "k < length P" "k \<noteq> i" "k \<noteq> j" for k
    using a that by (auto intro!: far_cells[OF r] simp: abs_minus_commute)
  have "length (spread_pass r_min P) = length P
      \<and> (\<forall>k \<in> {i, j}. spread_pass r_min P ! k = P ! k)"
  proof (rule spread_pass_protected)
    fix a b assume ab: "a < b" "b < length P" "a \<in> {i, j} \<or> b \<in> {i, j}"
      and adj: "cell_of r_min (P ! b) \<in> set (neigh_keys (cell_of r_min (P ! a)))"
    have al: "a < length P" using ab by simp
    from ab(3) adj far[of a] far[of b] ab(2) al have "a \<in> {i, j}" "b \<in> {i, j}" by blast+
    with ab(1) ij(1) have "a = i" "b = j" by auto
    with near show "a \<in> {i, j} \<and> b \<in> {i, j}
        \<and> \<not> (dist2 (P ! a) (P ! b) < r_min * r_min \<and> dist2 (P ! a) (P ! b) > 1 / 10 ^ 12)"
      by simp
  qed
  then have "length (spread_pass r_min P) = length P" "spread_pass r_min P ! i = P ! i"
    "spread_pass r_min P ! j = P ! j" by simp_all
  moreover have "spread P r_min 1 = Inr (spread_pass r_min P)" using r by (simp add: spread_def)
  ultimately show "\<exists>Q. spread P r_min 1 = Inr Q \<and> length Q = length P
               \<and> Q ! i = P ! i \<and> Q ! j = P ! j \<and> dist2 (Q ! i) (Q ! j) \<le> 1 / 10 ^ 12"
    using near by simp
next
  assume a: "r_min \<noteq> 0 \<and> i < j \<and> j < length P \<and> dist2 (P ! i) (P ! j) \<le> 1 / 10 ^ 12
      \<and> i \<in> U \<and> j \<in> U
      \<and> (\<forall>a < length P. \<forall>b < length P.
            a < b \<and> (a \<in> U \<or> b \<in> U)
            \<and> \<not> (2 * \<bar>r_min\<bar> \<le> \<bar>fst (P ! a) - fst (P ! b)\<bar>
                  \<or> 2 * \<bar>r_min\<bar> \<le> \<bar>snd (P ! a) - snd (P ! b)\<bar>)
            \<longrightarrow> a \<in> U \<and> b \<in> U
              \<and> \<not> (dist2 (P ! a) (P ! b) < r_min * r_min \<and> dist2 (P ! a) (P ! b) > 1 / 10 ^ 12))"
  then have r: "r_min \<noteq> 0" and near: "dist2 (P ! i) (P ! j) \<le> 1 / 10 ^ 12"
    and u: "i \<in> U" "j \<in> U" by simp_all
  have "length (spread_pass r_min P) = length P \<and> (\<forall>k \<in> U. spread_pass r_min P ! k = P ! k)"
  proof (rule spread_pass_protected)
    fix a b assume ab: "a < b" "b < length P" "a \<in> U \<or> b \<in> U"
      and adj: "cell_of r_min (P ! b) \<in> set (neigh_keys (cell_of r_min (P ! a)))"
    have al: "a < length P" using ab by simp
    have "\<not> (2 * \<bar>r_min\<bar> \<le> \<bar>fst (P ! a) - fst (P ! b)\<bar>
            \<or> 2 * \<bar>r_min\<bar> \<le> \<bar>snd (P ! a) - snd (P ! b)\<bar>)"
      using far_cells[OF r, of "P ! a" "P ! b"] adj by blast
    with a ab al show "a \<in> U \<and> b \<in> U
        \<and> \<not> (dist2 (P ! a) (P ! b) < r_min * r_min \<and> dist2 (P ! a) (P ! b) > 1 / 10 ^ 12)"
      by blast
  qed
  moreover have "spread P r_min 1 = Inr (spread_pass r_min P)" using r by (simp add: spread_def)
  ultimately show "\<exists>Q. spread P r_min 1 = Inr Q \<and> length Q = length P
               \<and> (\<forall>k \<in> U. Q ! k = P ! k) \<and> dist2 (Q ! i) (Q ! j) \<le> 1 / 10 ^ 12"
    using near u by simp
next
  assume "r_min \<noteq> 0 \<and> quiet r_min P \<and> i < j \<and> j < length P
        \<and> dist2 (P ! i) (P ! j) \<le> 1 / 10 ^ 12"
  then show "\<exists>Q. spread P r_min iters = Inr Q \<and> Q ! i = P ! i \<and> Q ! j = P ! j
             \<and> dist2 (Q ! i) (Q ! j) \<le> 1 / 10 ^ 12"
    using spread_quiet[of r_min P iters] by auto
qed

theorem spread_coincident_pair_witness:
  "(1 / 100 :: real) \<noteq> 0 \<and> (0::nat) < 1 \<and> 1 < length [(0, 0), (0, 0), (1, 1), (201 / 200, 1 :: real)]
   \<and> dist2 ([(0, 0), (0, 0), (1, 1), (201 / 200, 1)] ! 0) ([(0, 0), (0, 0), (1, 1), (201 / 200, 1)] ! 1)
        \<le> 1 / 10 ^ 12
   \<and> list_all (\<lambda>p :: real \<times> real. 2 * \<bar>1 / 100\<bar> \<le> \<bar>fst p - 0\<bar>) [(1, 1), (201 / 200, 1)]
   \<and> spread [(0, 0), (0, 0), (1, 1), (201 / 200, 1)] (1 / 100) 1
       = Inr [(0, 0), (0, 0), (399 / 400, 1), (403 / 400, 1)]
   \<and> quiet (1 / 100) [(0, 0), (0, 0), (1, 1)]
   \<and> spread [(0, 0), (0, 0), (1, 1)] (1 / 100) 3 = Inr [(0, 0), (0, 0), (1, 1)]"
proof -
  let ?P = "[(0, 0), (0, 0), (1, 1), (201 / 200, 1 :: real)]"
  have d: "dist2 (?P ! 0) (?P ! 1) \<le> 1 / 10 ^ 12" by (simp add: dist2_def)
  have far: "\<forall>k < length ?P. k \<noteq> 0 \<and> k \<noteq> 1 \<longrightarrow>
            (2 * \<bar>1 / 100 :: real\<bar> \<le> \<bar>fst (?P ! k) - fst (?P ! 0)\<bar>
               \<or> 2 * \<bar>1 / 100 :: real\<bar> \<le> \<bar>snd (?P ! k) - snd (?P ! 0)\<bar>)
          \<and> (2 * \<bar>1 / 100 :: real\<bar> \<le> \<bar>fst (?P ! k) - fst (?P ! 1)\<bar>
               \<or> 2 * \<bar>1 / 100 :: real\<bar> \<le> \<bar>snd (?P ! k) - snd (?P ! 1)\<bar>)"
    by (simp add: less_Suc_eq numeral_3_eq_3 numeral_2_eq_2 nth_Cons' eval_nat_numeral)
  have l: "(1::nat) < length ?P" by simp
  have d3: "dist2 ([(0, 0), (0, 0), (1, 1)] ! 0) ([(0, 0), (0, 0), (1, 1)] ! 1) \<le> 1 / 10 ^ 12"
    by (simp add: dist2_def)
  have l3: "(1::nat) < length [(0, 0), (0, 0), (1, 1 :: real)]" by simp
  from spread_coincident_pair[of "1 / 100" 0 1 ?P "{0, 1}" 1] d far l
  obtain Q where "spread ?P (1 / 100) 1 = Inr Q" "Q ! 0 = ?P ! 0" "Q ! 1 = ?P ! 1" by auto
  moreover have e: "spread ?P (1 / 100) 1 = Inr [(0, 0), (0, 0), (399 / 400, 1), (403 / 400, 1)]"
    by (simp add: spread_def pass_far_pair)
  moreover from spread_coincident_pair[of "1 / 100" 0 1 "[(0, 0), (0, 0), (1, 1)]" "{0, 1}" 3] d3 l3 quiet3
  obtain Q' where "spread [(0, 0), (0, 0), (1, 1)] (1 / 100) 3 = Inr Q'" by auto
  moreover have "spread [(0, 0), (0, 0), (1, 1)] (1 / 100) 3 = Inr [(0, 0), (0, 0), (1, 1)]"
    by (rule spread_quiet[OF quiet3]) simp
  ultimately show ?thesis using d quiet3 by simp
qed

text \<open>
  Claim C10 fails with a third point nearby: points 0 and 1 coincide, point 2 is within
  \<open>r_min\<close> of both; the pushes against point 2 differ, and the two end up apart.
\<close>

theorem spread_coincident_counterexample:
  "dist2 ([(0, 0), (0, 0), (1 / 200, 0), (1, 1)] ! 0) ([(0, 0), (0, 0), (1 / 200, 0), (1, 1)] ! 1) = 0
   \<and> spread [(0, 0), (0, 0), (1 / 200, 0), (1, 1)] (1 / 100) 1
       = Inr [(- 1 / 400, 0), (- 1 / 800, 0), (7 / 800, 0), (1, 1)]
   \<and> dist2 (- 1 / 400, 0) (- 1 / 800, 0) > 1 / 10 ^ 12"
  by (simp add: spread_def pass_near3 dist2_def)

lemma buckets_chain:
  "build_buckets (1 / 100) [(0, 0), (1 / 200, 0), (11 / 1000, 0), (1, 1)]
     = [((0, 0), [0, 1]), ((1, 0), [2]), ((100, 100), [3])]"
  by (simp add: build_buckets_def bucket_add_def cell_of_def enumerate_eq_zip upt_rec)

lemma hot_chain:
  "hot_of [((0, 0), [0, Suc 0]), ((1, 0), [2]), ((100, 100), [3])] (0, 0) = [0, Suc 0, 2]"
  "hot_of [((0, 0), [0, Suc 0]), ((1, 0), [2]), ((100, 100), [3])] (1, 0) = [0, Suc 0, 2]"
  "hot_of [((0, 0), [0, Suc 0]), ((1, 0), [2]), ((100, 100), [3])] (100, 100) = [3]"
  by (simp_all add: hot_of_def neigh_keys_def)

lemma pass_chain:
  "spread_pass (1 / 100) [(0, 0), (1 / 200, 0), (11 / 1000, 0), (1, 1)]
     = [(- 1 / 400, 0), (17 / 4000, 0), (57 / 4000, 0), (1, 1)]"
  by (simp add: spread_pass_def buckets_chain spread_bucket_def hot_chain spread_point_def
        push_pair_def Let_def sqrt_1_40000 sqrt_49_4000000)

text \<open>Step 8 after a back-end has returned: normalisation, then the declutter for the
  force layouts only, then the mapping to the canvas.\<close>

lemma coords_pipeline:
  assumes "layout_requested cfg X" "run_layout be rng cfg X edges = Inr (Some c, mu)"
    "normalize_coords c = Inr nrm"
  shows "coords be rng cfg X edges
     = (if mu = ''fa2'' \<or> mu = ''fr''
        then (case spread nrm (1 / 100) 1 of
                Inl e \<Rightarrow> Inl e
              | Inr spread_nrm \<Rightarrow> Inr (Some (canvas_map cfg spread_nrm), mu))
        else Inr (Some (canvas_map cfg nrm), mu))"
  using assms by (simp add: coords_def layout_requested_def declutter_def)

text \<open>
  Claim C7, as the code has it.  A pair of points closer than \<open>r_min\<close> (and more than
  \<open>1e-6\<close> apart) is isolated when every other point is at least one and a half times
  \<open>r_min\<close> from both and no pair among the other points satisfies the push condition.
  In a layout of any size the declutter does exactly one push on an isolated pair: the
  two end exactly \<open>r_min\<close> apart (in real arithmetic), each has moved by at most half of
  \<open>r_min\<close>, and no other point has moved, after any positive number of passes.  The
  same distance \<open>r_min\<close> is reached in one pass, whatever happens among the other points,
  by a close pair that every other point is two cell widths or more away from, along one
  axis at least.  A single push moves each point by at most half of \<open>r_min\<close>.  A point
  that every other point is two cell widths or more away from, along one axis at least,
  is not moved by a pass.  A layout in which every pair is at least \<open>r_min\<close> apart comes
  back unchanged.  In the export the declutter runs between the normalisation and the
  mapping to the canvas, with \<open>r_min = 0.01\<close> and one pass, exactly when the strategy
  used is \<open>fa2\<close> or \<open>fr\<close>.
\<close>

theorem declutter_separation:
  "(0 < r_min \<and> 0 < iters \<and> i < j \<and> j < length P
      \<and> 1 / 10 ^ 12 < dist2 (P ! i) (P ! j) \<and> dist2 (P ! i) (P ! j) < r_min * r_min
      \<and> (\<forall>k < length P. k \<noteq> i \<and> k \<noteq> j \<longrightarrow>
            (3 * r_min / 2) * (3 * r_min / 2) \<le> dist2 (P ! k) (P ! i)
          \<and> (3 * r_min / 2) * (3 * r_min / 2) \<le> dist2 (P ! k) (P ! j))
      \<and> (\<forall>a < length P. \<forall>b < length P. a < b \<and> a \<noteq> i \<and> a \<noteq> j \<and> b \<noteq> i \<and> b \<noteq> j \<longrightarrow>
            \<not> (dist2 (P ! a) (P ! b) < r_min * r_min \<and> dist2 (P ! a) (P ! b) > 1 / 10 ^ 12))
      \<longrightarrow> spread P r_min iters = Inr (push_pair r_min (P ! i) i P j)
        \<and> length (push_pair r_min (P ! i) i P j) = length P
        \<and> dist2 (push_pair r_min (P ! i) i P j ! i) (push_pair r_min (P ! i) i P j ! j)
            = r_min * r_min
        \<and> dist2 (P ! i) (push_pair r_min (P ! i) i P j ! i) \<le> (r_min / 2) * (r_min / 2)
        \<and> dist2 (P ! j) (push_pair r_min (P ! i) i P j ! j) \<le> (r_min / 2) * (r_min / 2)
        \<and> (\<forall>k < length P. k \<noteq> i \<and> k \<noteq> j \<longrightarrow> push_pair r_min (P ! i) i P j ! k = P ! k))
   \<and> (0 < r_min \<and> i < j \<and> j < length P
      \<and> 1 / 10 ^ 12 < dist2 (P ! i) (P ! j) \<and> dist2 (P ! i) (P ! j) < r_min * r_min
      \<and> (\<forall>k < length P. k \<noteq> i \<and> k \<noteq> j \<longrightarrow>
            (2 * r_min \<le> \<bar>fst (P ! k) - fst (P ! i)\<bar> \<or> 2 * r_min \<le> \<bar>snd (P ! k) - snd (P ! i)\<bar>)
          \<and> (2 * r_min \<le> \<bar>fst (P ! k) - fst (P ! j)\<bar> \<or> 2 * r_min \<le> \<bar>snd (P ! k) - snd (P ! j)\<bar>))
      \<longrightarrow> (\<exists>Q. spread P r_min 1 = Inr Q \<and> length Q = length P
               \<and> Q ! i = push_pair r_min (P ! i) i P j ! i
               \<and> Q ! j = push_pair r_min (P ! i) i P j ! j
               \<and> dist2 (Q ! i) (Q ! j) = r_min * r_min
               \<and> dist2 (P ! i) (Q ! i) \<le> (r_min / 2) * (r_min / 2)
               \<and> dist2 (P ! j) (Q ! j) \<le> (r_min / 2) * (r_min / 2)))
   \<and> (0 < r_min \<and> m < length S
      \<longrightarrow> dist2 (S ! m) (push_pair r_min p_ii ii S jj ! m) \<le> (r_min / 2) * (r_min / 2))
   \<and> (r_min \<noteq> 0 \<and> k < length P
      \<and> (\<forall>l < length P. l \<noteq> k \<longrightarrow>
            2 * \<bar>r_min\<bar> \<le> \<bar>fst (P ! l) - fst (P ! k)\<bar> \<or> 2 * \<bar>r_min\<bar> \<le> \<bar>snd (P ! l) - snd (P ! k)\<bar>)
      \<longrightarrow> (\<exists>Q. spread P r_min 1 = Inr Q \<and> length Q = length P \<and> Q ! k = P ! k))
   \<and> (r_min \<noteq> 0 \<and> (\<forall>i < length P. \<forall>j < length P. i < j \<longrightarrow> r_min * r_min \<le> dist2 (P ! i) (P ! j))
        \<longrightarrow> spread P r_min iters = Inr P)
   \<and> (layout_requested cfg X \<and> run_layout be rng cfg X edges = Inr (Some c, mu)
        \<and> normalize_coords c = Inr nrm
      \<longrightarrow> coords be rng cfg X edges
            = (if mu = ''fa2'' \<or> mu = ''fr''
               then (case spread nrm (1 / 100) 1 of
                       Inl e \<Rightarrow> Inl e
                     | Inr spread_nrm \<Rightarrow> Inr (Some (canvas_map cfg spread_nrm), mu))
               else Inr (Some (canvas_map cfg nrm), mu)))"
proof (intro conjI impI)
  assume a: "0 < r_min \<and> 0 < iters \<and> i < j \<and> j < length P
      \<and> 1 / 10 ^ 12 < dist2 (P ! i) (P ! j) \<and> dist2 (P ! i) (P ! j) < r_min * r_min
      \<and> (\<forall>k < length P. k \<noteq> i \<and> k \<noteq> j \<longrightarrow>
            (3 * r_min / 2) * (3 * r_min / 2) \<le> dist2 (P ! k) (P ! i)
          \<and> (3 * r_min / 2) * (3 * r_min / 2) \<le> dist2 (P ! k) (P ! j))
      \<and> (\<forall>a < length P. \<forall>b < length P. a < b \<and> a \<noteq> i \<and> a \<noteq> j \<and> b \<noteq> i \<and> b \<noteq> j \<longrightarrow>
            \<not> (dist2 (P ! a) (P ! b) < r_min * r_min \<and> dist2 (P ! a) (P ! b) > 1 / 10 ^ 12))"
  then have r: "0 < r_min" and it: "0 < iters" and ij: "i < j" "j < length P"
    and close: "1 / 10 ^ 12 < dist2 (P ! i) (P ! j)" "dist2 (P ! i) (P ! j) < r_min * r_min"
    by simp_all
  have iso: "(3 * r_min / 2) * (3 * r_min / 2) \<le> dist2 (P ! k) (P ! i)
           \<and> (3 * r_min / 2) * (3 * r_min / 2) \<le> dist2 (P ! k) (P ! j)"
    if "k < length P" "k \<noteq> i" "k \<noteq> j" for k using a that by blast
  have rest: "\<not> (dist2 (P ! a) (P ! b) < r_min * r_min \<and> dist2 (P ! a) (P ! b) > 1 / 10 ^ 12)"
    if "a < b" "b < length P" "a \<noteq> i" "a \<noteq> j" "b \<noteq> i" "b \<noteq> j" for a b
  proof -
    from that have "a < length P" by simp
    with a that show ?thesis by blast
  qed
  show "spread P r_min iters = Inr (push_pair r_min (P ! i) i P j)"
    by (rule spread_isolated_pair[OF r ij close iso rest it])
  show "length (push_pair r_min (P ! i) i P j) = length P" by (rule push_pair_length)
  show "dist2 (push_pair r_min (P ! i) i P j ! i) (push_pair r_min (P ! i) i P j ! j)
            = r_min * r_min"
    by (rule push_pair_apart(1)[OF r ij close])
  show "dist2 (P ! i) (push_pair r_min (P ! i) i P j ! i) \<le> (r_min / 2) * (r_min / 2)"
    by (rule push_pair_apart(2)[OF r ij close])
  show "dist2 (P ! j) (push_pair r_min (P ! i) i P j ! j) \<le> (r_min / 2) * (r_min / 2)"
    by (rule push_pair_apart(3)[OF r ij close])
  show "\<forall>k < length P. k \<noteq> i \<and> k \<noteq> j \<longrightarrow> push_pair r_min (P ! i) i P j ! k = P ! k"
    by (simp add: push_pair_other)
next
  assume a: "0 < r_min \<and> i < j \<and> j < length P
      \<and> 1 / 10 ^ 12 < dist2 (P ! i) (P ! j) \<and> dist2 (P ! i) (P ! j) < r_min * r_min
      \<and> (\<forall>k < length P. k \<noteq> i \<and> k \<noteq> j \<longrightarrow>
            (2 * r_min \<le> \<bar>fst (P ! k) - fst (P ! i)\<bar> \<or> 2 * r_min \<le> \<bar>snd (P ! k) - snd (P ! i)\<bar>)
          \<and> (2 * r_min \<le> \<bar>fst (P ! k) - fst (P ! j)\<bar> \<or> 2 * r_min \<le> \<bar>snd (P ! k) - snd (P ! j)\<bar>))"
  then have r: "0 < r_min" and ij: "i < j" "j < length P"
    and close: "1 / 10 ^ 12 < dist2 (P ! i) (P ! j)" "dist2 (P ! i) (P ! j) < r_min * r_min"
    by simp_all
  have r0: "r_min \<noteq> 0" and ra: "\<bar>r_min\<bar> = r_min" using r by simp_all
  have sep: "cell_of r_min (P ! k) \<notin> set (neigh_keys (cell_of r_min (P ! i)))
           \<and> cell_of r_min (P ! k) \<notin> set (neigh_keys (cell_of r_min (P ! j)))
           \<and> cell_of r_min (P ! i) \<notin> set (neigh_keys (cell_of r_min (P ! k)))
           \<and> cell_of r_min (P ! j) \<notin> set (neigh_keys (cell_of r_min (P ! k)))"
    if "k < length P" "k \<noteq> i" "k \<noteq> j" for k
    using a that by (auto intro!: far_cells[OF r0] simp: abs_minus_commute ra)
  note al = spread_pass_pair_alone[OF r ij close(2) sep]
  note ap = push_pair_apart[OF r ij close]
  have "spread P r_min 1 = Inr (spread_pass r_min P)" using r by (simp add: spread_def)
  with al ap show "(\<exists>Q. spread P r_min 1 = Inr Q \<and> length Q = length P
               \<and> Q ! i = push_pair r_min (P ! i) i P j ! i
               \<and> Q ! j = push_pair r_min (P ! i) i P j ! j
               \<and> dist2 (Q ! i) (Q ! j) = r_min * r_min
               \<and> dist2 (P ! i) (Q ! i) \<le> (r_min / 2) * (r_min / 2)
               \<and> dist2 (P ! j) (Q ! j) \<le> (r_min / 2) * (r_min / 2))"
    by simp
next
  assume "0 < r_min \<and> m < length S"
  then show "dist2 (S ! m) (push_pair r_min p_ii ii S jj ! m) \<le> (r_min / 2) * (r_min / 2)"
    using push_pair_step by blast
next
  assume a: "r_min \<noteq> 0 \<and> k < length P
      \<and> (\<forall>l < length P. l \<noteq> k \<longrightarrow>
            2 * \<bar>r_min\<bar> \<le> \<bar>fst (P ! l) - fst (P ! k)\<bar> \<or> 2 * \<bar>r_min\<bar> \<le> \<bar>snd (P ! l) - snd (P ! k)\<bar>)"
  then have r: "r_min \<noteq> 0" by simp
  have far: "cell_of r_min (P ! l) \<notin> set (neigh_keys (cell_of r_min (P ! k)))"
            "cell_of r_min (P ! k) \<notin> set (neigh_keys (cell_of r_min (P ! l)))"
    if "l < length P" "l \<noteq> k" for l
    using a that by (auto intro!: far_cells[OF r] simp: abs_minus_commute)
  have "length (spread_pass r_min P) = length P
      \<and> (\<forall>u \<in> {k}. spread_pass r_min P ! u = P ! u)"
  proof (rule spread_pass_protected)
    fix a b assume ab: "a < b" "b < length P" "a \<in> {k} \<or> b \<in> {k}"
      and adj: "cell_of r_min (P ! b) \<in> set (neigh_keys (cell_of r_min (P ! a)))"
    have al: "a < length P" using ab by simp
    from ab adj far[of a] far[of b] al have False by auto
    then show "a \<in> {k} \<and> b \<in> {k}
        \<and> \<not> (dist2 (P ! a) (P ! b) < r_min * r_min \<and> dist2 (P ! a) (P ! b) > 1 / 10 ^ 12)" ..
  qed
  moreover have "spread P r_min 1 = Inr (spread_pass r_min P)" using r by (simp add: spread_def)
  ultimately show "\<exists>Q. spread P r_min 1 = Inr Q \<and> length Q = length P \<and> Q ! k = P ! k" by simp
next
  assume a: "r_min \<noteq> 0 \<and> (\<forall>i < length P. \<forall>j < length P. i < j \<longrightarrow> r_min * r_min \<le> dist2 (P ! i) (P ! j))"
  then have "quiet r_min P" unfolding quiet_def by (meson not_less)
  with a show "spread P r_min iters = Inr P" using spread_quiet by blast
next
  assume "layout_requested cfg X \<and> run_layout be rng cfg X edges = Inr (Some c, mu)
        \<and> normalize_coords c = Inr nrm"
  then show "coords be rng cfg X edges
            = (if mu = ''fa2'' \<or> mu = ''fr''
               then (case spread nrm (1 / 100) 1 of
                       Inl e \<Rightarrow> Inl e
                     | Inr spread_nrm \<Rightarrow> Inr (Some (canvas_map cfg spread_nrm), mu))
               else Inr (Some (canvas_map cfg nrm), mu))"
    using coords_pipeline by blast
qed

lemma push_example:
  "push_pair (1 / 100) (0, 0) 0 [(0, 0), (3 / 1000, 1 / 250), (1, 1)] (Suc 0)
     = [(- 3 / 2000, - 1 / 500), (9 / 2000, 3 / 500), (1, 1)]"
  by (simp add: push_pair_def Let_def sqrt_1_40000)

theorem declutter_separation_witness:
  "(0::real) < 1 / 100 \<and> (0::int) < 1 \<and> (0::nat) < 1
   \<and> 1 < length [(0, 0), (3 / 1000, 1 / 250), (1, 1 :: real)]
   \<and> 1 / 10 ^ 12 < dist2 (0, 0) (3 / 1000, 1 / 250)
   \<and> dist2 (0, 0) (3 / 1000, 1 / 250) < 1 / 100 * (1 / 100)
   \<and> (3 * (1 / 100) / 2) * (3 * (1 / 100) / 2) \<le> dist2 (1, 1) (0, 0)
   \<and> (3 * (1 / 100) / 2) * (3 * (1 / 100) / 2) \<le> dist2 (1, 1) (3 / 1000, 1 / 250)
   \<and> spread [(0, 0), (3 / 1000, 1 / 250), (1, 1)] (1 / 100) 1
       = Inr [(- 3 / 2000, - 1 / 500), (9 / 2000, 3 / 500), (1, 1)]
   \<and> dist2 (- 3 / 2000, - 1 / 500) (9 / 2000, 3 / 500) = 1 / 100 * (1 / 100)
   \<and> layout_requested default_cfg [unit_vec [1, 0], unit_vec [0, 1]]
   \<and> run_layout fallback_be 0 default_cfg [unit_vec [1, 0], unit_vec [0, 1]] []
       = Inr (Some [(0, 0), (1, 1)], ''fr'')
   \<and> normalize_coords [(0, 0), (1, 1)] = Inr [(0, 0), (1, 1)]
   \<and> coords fallback_be 0 default_cfg [unit_vec [1, 0], unit_vec [0, 1]] []
       = Inr (Some [(24, 24), (976, 676)], ''fr'')"
proof -
  let ?P = "[(0, 0), (3 / 1000, 1 / 250), (1, 1 :: real)]"
  let ?X = "[unit_vec [1, 0], unit_vec [0, 1]]"
  have h: "(0::real) < 1 / 100" "(0::int) < 1" "(0::nat) < 1" "1 < length ?P"
    "1 / 10 ^ 12 < dist2 (?P ! 0) (?P ! 1)" "dist2 (?P ! 0) (?P ! 1) < 1 / 100 * (1 / 100)"
    by (simp_all add: dist2_def)
  have iso: "\<forall>k < length ?P. k \<noteq> 0 \<and> k \<noteq> 1 \<longrightarrow>
            (3 * (1 / 100) / 2) * (3 * (1 / 100) / 2) \<le> dist2 (?P ! k) (?P ! 0)
          \<and> (3 * (1 / 100) / 2) * (3 * (1 / 100) / 2) \<le> dist2 (?P ! k) (?P ! 1)"
    by (simp add: less_Suc_eq numeral_3_eq_3 nth_Cons' dist2_def)
  have rest: "\<forall>a < length ?P. \<forall>b < length ?P. a < b \<and> a \<noteq> 0 \<and> a \<noteq> 1 \<and> b \<noteq> 0 \<and> b \<noteq> 1 \<longrightarrow>
            \<not> (dist2 (?P ! a) (?P ! b) < 1 / 100 * (1 / 100) \<and> dist2 (?P ! a) (?P ! b) > 1 / 10 ^ 12)"
    by (simp add: less_Suc_eq numeral_3_eq_3)
  have g: "(3 * (1 / 100) / 2) * (3 * (1 / 100) / 2) \<le> dist2 (1, 1) (0, 0)"
    "(3 * (1 / 100) / 2) * (3 * (1 / 100) / 2) \<le> dist2 (1, 1) (3 / 1000, 1 / 250)"
    "1 / 10 ^ 12 < dist2 (0, 0) (3 / 1000, 1 / 250)"
    "dist2 (0, 0) (3 / 1000, 1 / 250) < 1 / 100 * (1 / 100)"
    "dist2 (- 3 / 2000, - 1 / 500) (9 / 2000, 3 / 500) = 1 / 100 * (1 / 100)"
    by (simp_all add: dist2_def)
  note l = two_papers_requested(5) fallback_be_fr[of 0 ?X "[]"] normalize_diag
  from declutter_separation[where r_min = "1 / 100" and iters = 1 and i = 0 and j = 1 and P = ?P
         and k = 2 and cfg = default_cfg and X = ?X and be = fallback_be and rng = 0
         and edges = "[]" and c = "[(0, 0), (1, 1)]" and mu = "''fr''" and nrm = "[(0, 0), (1, 1)]"
         and m = 0 and S = ?P and p_ii = "(0, 0)" and ii = 0 and jj = 1]
       h iso rest l
  have s: "spread ?P (1 / 100) 1 = Inr (push_pair (1 / 100) (?P ! 0) 0 ?P 1)"
    and c: "coords fallback_be 0 default_cfg ?X []
       = (case spread [(0, 0), (1, 1)] (1 / 100) 1 of
            Inl e \<Rightarrow> Inl e
          | Inr spread_nrm \<Rightarrow> Inr (Some (canvas_map default_cfg spread_nrm), ''fr''))"
    by simp_all
  from s have s': "spread ?P (1 / 100) 1 = Inr [(- 3 / 2000, - 1 / 500), (9 / 2000, 3 / 500), (1, 1)]"
    by (simp add: push_example)
  from c have c': "coords fallback_be 0 default_cfg ?X [] = Inr (Some [(24, 24), (976, 676)], ''fr'')"
    by (simp add: spread_far2 canvas_diag_default)
  from h(1-4) g s' l c' show ?thesis by simp
qed

text \<open>
  Claim C7 fails for a chain of three points: points 0 and 1 start closer than \<open>r_min\<close>
  and are pushed \<open>r_min\<close> apart, then point 1 is pushed back by point 2; the pair ends
  at distance \<open>0.00675\<close>, less than three quarters of \<open>r_min = 0.01\<close>.
\<close>

theorem declutter_chain_counterexample:
  "1 / 10 ^ 12 < dist2 (0, 0) (1 / 200, 0) \<and> dist2 (0, 0) (1 / 200, 0) < 1 / 100 * (1 / 100)
   \<and> spread [(0, 0), (1 / 200, 0), (11 / 1000, 0), (1, 1)] (1 / 100) 1
       = Inr [(- 1 / 400, 0), (17 / 4000, 0), (57 / 4000, 0), (1, 1)]
   \<and> dist2 (- 1 / 400, 0) (17 / 4000, 0) < (3 / 400) * (3 / 400)"
  by (simp add: spread_def pass_chain dist2_def)

text \<open>
  Claim C6, as the code has it.  On a layout with at least one row the normalisation does
  not raise, and right after it every coordinate lies in \<open>[0, 1]\<close>, the least value on
  each axis is \<open>0\<close> and the greatest is \<open>1\<close>, or the axis range divided by the floor
  \<open>1e-9\<close> when the range is below the floor.  These are the values mapped to the canvas
  when the strategy used is neither \<open>fa2\<close> nor \<open>fr\<close>, and also for these two when no pair
  of normalised points satisfies the push condition of the declutter.  For \<open>fa2\<close> and
  \<open>fr\<close> the declutter runs between the normalisation and the mapping to the canvas, and
  what is mapped is its result.
\<close>

theorem normalized_before_canvas:
  "(coords_arr \<noteq> [] \<longrightarrow>
      (\<exists>nrm. normalize_coords coords_arr = Inr nrm
         \<and> length nrm = length coords_arr
         \<and> (\<forall>(x, y) \<in> set nrm. 0 \<le> x \<and> x \<le> 1 \<and> 0 \<le> y \<and> y \<le> 1)
         \<and> axis_min (map fst nrm) = 0 \<and> axis_min (map snd nrm) = 0
         \<and> axis_max (map fst nrm) =
               (if 1 / 10 ^ 9 \<le> axis_max (map fst coords_arr) - axis_min (map fst coords_arr) then 1
                else (axis_max (map fst coords_arr) - axis_min (map fst coords_arr)) * 10 ^ 9)
         \<and> axis_max (map snd nrm) =
               (if 1 / 10 ^ 9 \<le> axis_max (map snd coords_arr) - axis_min (map snd coords_arr) then 1
                else (axis_max (map snd coords_arr) - axis_min (map snd coords_arr)) * 10 ^ 9)
         \<and> axis_max (map fst nrm) \<le> 1 \<and> axis_max (map snd nrm) \<le> 1))
   \<and> (layout_requested cfg X \<and> run_layout be rng cfg X edges = Inr (Some c, mu)
        \<and> normalize_coords c = Inr nrm
        \<and> (mu \<noteq> ''fa2'' \<and> mu \<noteq> ''fr'' \<or> quiet (1 / 100) nrm)
      \<longrightarrow> coords be rng cfg X edges = Inr (Some (canvas_map cfg nrm), mu)
        \<and> (\<forall>(x, y) \<in> set nrm. 0 \<le> x \<and> x \<le> 1 \<and> 0 \<le> y \<and> y \<le> 1))
   \<and> (layout_requested cfg X \<and> run_layout be rng cfg X edges = Inr (Some c, mu)
        \<and> normalize_coords c = Inr nrm \<and> (mu = ''fa2'' \<or> mu = ''fr'')
      \<longrightarrow> coords be rng cfg X edges
            = (case spread nrm (1 / 100) 1 of
                 Inl e \<Rightarrow> Inl e
               | Inr spread_nrm \<Rightarrow> Inr (Some (canvas_map cfg spread_nrm), mu)))"
proof (intro conjI impI)
  assume "coords_arr \<noteq> []"
  then show "\<exists>nrm. normalize_coords coords_arr = Inr nrm
         \<and> length nrm = length coords_arr
         \<and> (\<forall>(x, y) \<in> set nrm. 0 \<le> x \<and> x \<le> 1 \<and> 0 \<le> y \<and> y \<le> 1)
         \<and> axis_min (map fst nrm) = 0 \<and> axis_min (map snd nrm) = 0
         \<and> axis_max (map fst nrm) =
               (if 1 / 10 ^ 9 \<le> axis_max (map fst coords_arr) - axis_min (map fst coords_arr) then 1
                else (axis_max (map fst coords_arr) - axis_min (map fst coords_arr)) * 10 ^ 9)
         \<and> axis_max (map snd nrm) =
               (if 1 / 10 ^ 9 \<le> axis_max (map snd coords_arr) - axis_min (map snd coords_arr) then 1
                else (axis_max (map snd coords_arr) - axis_min (map snd coords_arr)) * 10 ^ 9)
         \<and> axis_max (map fst nrm) \<le> 1 \<and> axis_max (map snd nrm) \<le> 1"
    by (rule normalize_coords_props)
next
  assume a: "layout_requested cfg X \<and> run_layout be rng cfg X edges = Inr (Some c, mu)
        \<and> normalize_coords c = Inr nrm
        \<and> (mu \<noteq> ''fa2'' \<and> mu \<noteq> ''fr'' \<or> quiet (1 / 100) nrm)"
  then have p: "coords be rng cfg X edges
     = (if mu = ''fa2'' \<or> mu = ''fr''
        then (case spread nrm (1 / 100) 1 of
                Inl e \<Rightarrow> Inl e
              | Inr spread_nrm \<Rightarrow> Inr (Some (canvas_map cfg spread_nrm), mu))
        else Inr (Some (canvas_map cfg nrm), mu))"
    using coords_pipeline by blast
  show "coords be rng cfg X edges = Inr (Some (canvas_map cfg nrm), mu)"
  proof (cases "mu = ''fa2'' \<or> mu = ''fr''")
    case False then show ?thesis using p by simp
  next
    case True
    with a have "quiet (1 / 100) nrm" by blast
    then have "spread nrm (1 / 100) 1 = Inr nrm" by (rule spread_quiet) simp
    with True p show ?thesis by simp
  qed
  from a have n: "normalize_coords c = Inr nrm" by simp
  then have "c \<noteq> []" by (auto simp: normalize_coords_def)
  from normalize_coords_props[OF this] n
  show "\<forall>(x, y) \<in> set nrm. 0 \<le> x \<and> x \<le> 1 \<and> 0 \<le> y \<and> y \<le> 1" by auto
next
  assume "layout_requested cfg X \<and> run_layout be rng cfg X edges = Inr (Some c, mu)
        \<and> normalize_coords c = Inr nrm \<and> (mu = ''fa2'' \<or> mu = ''fr'')"
  then show "coords be rng cfg X edges
            = (case spread nrm (1 / 100) 1 of
                 Inl e \<Rightarrow> Inl e
               | Inr spread_nrm \<Rightarrow> Inr (Some (canvas_map cfg spread_nrm), mu))"
    using coords_pipeline[of cfg X be rng edges c mu nrm] by auto
qed

theorem normalized_before_canvas_witness:
  "[(2, 3), (4, 3), (3, 3::real)] \<noteq> []
   \<and> normalize_coords [(2, 3), (4, 3), (3, 3)] = Inr [(0, 0), (1, 0), (1/2, 0)]
   \<and> axis_max (map fst [(0, 0), (1, 0), (1/2, 0::real)]) = 1
   \<and> axis_max (map snd [(0, 0), (1, 0), (1/2, 0::real)]) = 0
   \<and> layout_requested (method_cfg ''pca'') example_X
   \<and> run_layout chain_be 0 (method_cfg ''pca'') example_X []
       = Inr (Some [(0, 0), (1 / 200, 0), (11 / 1000, 0), (1, 1)], ''pca'')
   \<and> normalize_coords [(0, 0), (1 / 200, 0), (11 / 1000, 0), (1, 1)]
       = Inr [(0, 0), (1 / 200, 0), (11 / 1000, 0), (1, 1)]
   \<and> coords chain_be 0 (method_cfg ''pca'') example_X []
       = Inr (Some [(24, 24), (28, 24), (34, 24), (976, 676)], ''pca'')"
proof -
  let ?chain = "[(0, 0), (1 / 200, 0), (11 / 1000, 0), (1, 1 :: real)]"
  have r: "layout_requested (method_cfg ''pca'') example_X"
    by (simp add: layout_requested_def method_cfg_def default_cfg_def lower_examples example_X_def)
  have m: "''pca'' \<noteq> ''fa2'' \<and> ''pca'' \<noteq> ''fr''" by simp
  from normalized_before_canvas[of "[(2, 3), (4, 3), (3, 3)]" "method_cfg ''pca''" example_X chain_be 0
         "[]" ?chain "''pca''" ?chain]
       r chain_be_pca[of 0 example_X "[]"] normalize_chain m
  have c: "coords chain_be 0 (method_cfg ''pca'') example_X []
       = Inr (Some (canvas_map (method_cfg ''pca'') ?chain), ''pca'')"
    and n: "\<exists>nrm. normalize_coords [(2, 3), (4, 3), (3, 3)] = Inr nrm" by auto
  have e: "normalize_coords [(2, 3), (4, 3), (3, 3)] = Inr [(0, 0), (1, 0), (1/2, 0)]"
    "axis_max (map fst [(0, 0), (1, 0), (1/2, 0::real)]) = 1"
    "axis_max (map snd [(0, 0), (1, 0), (1/2, 0::real)]) = 0"
    by (simp_all add: normalize_coords_def axis_min_def axis_max_def Let_def)
  from c have c': "coords chain_be 0 (method_cfg ''pca'') example_X []
       = Inr (Some [(24, 24), (28, 24), (34, 24), (976, 676)], ''pca'')"
    by (simp add: canvas_chain_plain)
  from e r chain_be_pca[of 0 example_X "[]"] normalize_chain c' show ?thesis by simp
qed

text \<open>
  Claim C6 fails for a force layout: \<open>spring_layout\<close> returns a chain of three close points
  and a far one, which is its own normalisation; the declutter pushes the first point to
  \<open>x = -0.0025\<close>, outside \<open>[0, 1]\<close>, and that value is mapped to the canvas: pixel 21, left
  of the padding of 24.
\<close>

theorem normalized_before_canvas_counterexample:
  "run_layout chain_be 0 default_cfg example_X []
     = Inr (Some [(0, 0), (1 / 200, 0), (11 / 1000, 0), (1, 1)], ''fr'')
   \<and> normalize_coords [(0, 0), (1 / 200, 0), (11 / 1000, 0), (1, 1)]
       = Inr [(0, 0), (1 / 200, 0), (11 / 1000, 0), (1, 1)]
   \<and> declutter ''fr'' [(0, 0), (1 / 200, 0), (11 / 1000, 0), (1, 1)]
       = Inr [(- 1 / 400, 0), (17 / 4000, 0), (57 / 4000, 0), (1, 1)]
   \<and> (- 1 / 400 :: real) < 0
   \<and> coords chain_be 0 default_cfg example_X []
       = Inr (Some [(21, 24), (28, 24), (37, 24), (976, 676)], ''fr'')
   \<and> cfg_canvas_pad default_cfg = 24"
proof -
  have d: "declutter ''fr'' [(0, 0), (1 / 200, 0), (11 / 1000, 0), (1, 1)]
       = Inr [(- 1 / 400, 0), (17 / 4000, 0), (57 / 4000, 0), (1, 1)]"
    by (simp add: declutter_def spread_def pass_chain)
  have g: "cfg_include_coords default_cfg \<and> length example_X \<ge> 2
       \<and> lower (cfg_coords_method default_cfg) \<noteq> ''none''"
    using example_requested by (simp add: layout_requested_def)
  have c: "coords chain_be 0 default_cfg example_X []
       = Inr (Some [(21, 24), (28, 24), (37, 24), (976, 676)], ''fr'')"
    unfolding coords_def using g by (simp add: chain_be_fr normalize_chain d canvas_chain)
  from chain_be_fr[of 0 example_X "[]"] normalize_chain d c show ?thesis
    by (simp add: default_cfg_def)
qed

section \<open>Properties of the layout strategy chain\<close>

lemma coords_layout_error:
  "layout_requested cfg X \<Longrightarrow> run_layout be rng cfg X edges = Inl e \<Longrightarrow>
   coords be rng cfg X edges = Inl e"
  by (simp add: coords_def layout_requested_def)

lemma coords_method:
  assumes "coords be rng cfg X edges = Inr (xy, mu)"
  shows "if layout_requested cfg X
         then (\<exists>c. run_layout be rng cfg X edges = Inr (c, mu) \<and> (xy = None \<longleftrightarrow> c = None))
         else mu = ''none'' \<and> xy = None"
  using assms unfolding coords_def layout_requested_def
  by (auto split: if_splits sum.splits option.splits prod.splits)

lemma build_payload_layout_error:
  assumes "prepare d = Inr pr" "layout_requested cfg (pr_X pr)"
    "run_layout be rng cfg (pr_X pr) (build_edges np cfg (pr_X pr) (pr_cluster_ids pr)) = Inl e"
  shows "build_payload be np rng now cfg d = Inl e"
  using assms(1) coords_layout_error[OF assms(2,3)]
  by (simp add: build_payload_def Let_def)

lemma build_payload_coords:
  assumes "build_payload be np rng now cfg d = Inr pl"
  shows "\<exists>pr xy. prepare d = Inr pr
      \<and> coords be rng cfg (pr_X pr) (build_edges np cfg (pr_X pr) (pr_cluster_ids pr))
          = Inr (xy, coords_method_used pl)
      \<and> coords_included pl = (xy \<noteq> None)"
  using assms unfolding build_payload_def Let_def
  by (auto split: sum.splits prod.splits)

lemma build_payload_success:
  assumes "prepare d = Inr pr"
    "coords be rng cfg (pr_X pr) (build_edges np cfg (pr_X pr) (pr_cluster_ids pr)) = Inr (xy, mu)"
    "build_nodes (cfg_compact cfg) (papers d) xy = Inr ns"
  shows "\<exists>pl. build_payload be np rng now cfg d = Inr pl \<and> coords_method_used pl = mu
      \<and> nodes pl = ns \<and> coords_included pl = (xy \<noteq> None) \<and> meta_generated_at pl = now"
  using assms by (simp add: build_payload_def Let_def)

text \<open>
  Claim C1, as the code has it.  A request that its own back-end serves is recorded under
  its own name (\<open>fa2\<close>, \<open>fr\<close>, \<open>umap\<close>, \<open>pca\<close>).  A failing ForceAtlas2 falls through to
  \<open>spring_layout\<close> and a failing UMAP falls through to PCA, and the name recorded is then
  \<open>fr\<close> or \<open>pca\<close>.  There is no other fall-through: without networkx a request for \<open>fa2\<close>
  or \<open>fr\<close> raises \<open>RuntimeError\<close>, and an exception of \<open>spring_layout\<close> or of PCA is not
  caught; a layout that raises makes the export raise and write nothing.  Any other
  method name runs no layout.  Whenever a payload is built, its \<open>coords.method\<close> is the
  name the strategy chain returned, \<open>none\<close> when no layout ran.
\<close>

theorem layout_fallback:
  "(lower (cfg_coords_method cfg) = ''fa2'' \<and> networkx be
      \<and> forceatlas2 be (layout_graph X edges) (cfg_fa2_scaling cfg) (cfg_fa2_gravity cfg)
            (cfg_fa2_iterations cfg) rng = Inr c
      \<longrightarrow> run_layout be rng cfg X edges = Inr (Some c, ''fa2''))
   \<and> (lower (cfg_coords_method cfg) = ''fr'' \<and> networkx be
      \<and> spring_layout be (layout_graph X edges) (cfg_fr_iterations cfg) (Some (cfg_fr_seed cfg)) rng = Inr c
      \<longrightarrow> run_layout be rng cfg X edges = Inr (Some c, ''fr''))
   \<and> (lower (cfg_coords_method cfg) = ''umap''
      \<and> umap_fit_transform be X (cfg_umap_n_neighbors cfg) (cfg_umap_min_dist cfg)
            (Some (cfg_umap_random_state cfg)) rng = Inr c
      \<longrightarrow> run_layout be rng cfg X edges = Inr (Some c, ''umap''))
   \<and> (lower (cfg_coords_method cfg) = ''pca''
      \<and> pca_fit_transform be X (Some (cfg_pca_random_state cfg)) rng = Inr c
      \<longrightarrow> run_layout be rng cfg X edges = Inr (Some c, ''pca''))
   \<and> (lower (cfg_coords_method cfg) = ''fa2'' \<and> networkx be
      \<and> forceatlas2 be (layout_graph X edges) (cfg_fa2_scaling cfg) (cfg_fa2_gravity cfg)
            (cfg_fa2_iterations cfg) rng = Inl e
      \<and> spring_layout be (layout_graph X edges) (cfg_fr_iterations cfg) (Some (cfg_fr_seed cfg)) rng = Inr c
      \<longrightarrow> run_layout be rng cfg X edges = Inr (Some c, ''fr''))
   \<and> (lower (cfg_coords_method cfg) = ''umap''
      \<and> umap_fit_transform be X (cfg_umap_n_neighbors cfg) (cfg_umap_min_dist cfg)
            (Some (cfg_umap_random_state cfg)) rng = Inl e
      \<and> pca_fit_transform be X (Some (cfg_pca_random_state cfg)) rng = Inr c
      \<longrightarrow> run_layout be rng cfg X edges = Inr (Some c, ''pca''))
   \<and> ((lower (cfg_coords_method cfg) = ''fa2'' \<or> lower (cfg_coords_method cfg) = ''fr'')
      \<and> \<not> networkx be
      \<longrightarrow> run_layout be rng cfg X edges
            = Inl (RuntimeError ''coords_method='fa2'/'fr' requires networkx (pip install networkx)''))
   \<and> ((lower (cfg_coords_method cfg) = ''fr''
        \<or> lower (cfg_coords_method cfg) = ''fa2''
          \<and> (\<exists>e'. forceatlas2 be (layout_graph X edges) (cfg_fa2_scaling cfg) (cfg_fa2_gravity cfg)
            (cfg_fa2_iterations cfg) rng = Inl e'))
      \<and> networkx be
      \<and> spring_layout be (layout_graph X edges) (cfg_fr_iterations cfg) (Some (cfg_fr_seed cfg)) rng = Inl e
      \<longrightarrow> run_layout be rng cfg X edges = Inl e)
   \<and> ((lower (cfg_coords_method cfg) = ''pca''
        \<or> lower (cfg_coords_method cfg) = ''umap''
          \<and> (\<exists>e'. umap_fit_transform be X (cfg_umap_n_neighbors cfg) (cfg_umap_min_dist cfg)
            (Some (cfg_umap_random_state cfg)) rng = Inl e'))
      \<and> pca_fit_transform be X (Some (cfg_pca_random_state cfg)) rng = Inl e
      \<longrightarrow> run_layout be rng cfg X edges = Inl e)
   \<and> (lower (cfg_coords_method cfg) \<noteq> ''fa2'' \<and> lower (cfg_coords_method cfg) \<noteq> ''fr''
      \<and> lower (cfg_coords_method cfg) \<noteq> ''umap'' \<and> lower (cfg_coords_method cfg) \<noteq> ''pca''
      \<longrightarrow> run_layout be rng cfg X edges = Inr (None, ''none''))
   \<and> (prepare d = Inr pr \<and> layout_requested cfg (pr_X pr)
      \<and> run_layout be rng cfg (pr_X pr) (build_edges np cfg (pr_X pr) (pr_cluster_ids pr)) = Inl e
      \<longrightarrow> export_json_graph be np rng now cfg d fs = (Inl e, fs))
   \<and> (prepare d = Inr pr
      \<and> coords be rng cfg (pr_X pr) (build_edges np cfg (pr_X pr) (pr_cluster_ids pr)) = Inr (xy, mu)
      \<and> build_nodes (cfg_compact cfg) (papers d) xy = Inr ns
      \<longrightarrow> (\<exists>pl'. build_payload be np rng now cfg d = Inr pl' \<and> coords_method_used pl' = mu
             \<and> coords_included pl' = (xy \<noteq> None) \<and> nodes pl' = ns))
   \<and> (build_payload be np rng now cfg d = Inr pl
      \<longrightarrow> (\<exists>pr'. prepare d = Inr pr'
            \<and> (if layout_requested cfg (pr_X pr')
                then \<exists>c'. run_layout be rng cfg (pr_X pr')
                            (build_edges np cfg (pr_X pr') (pr_cluster_ids pr'))
                          = Inr (c', coords_method_used pl)
                        \<and> coords_included pl = (c' \<noteq> None)
                else coords_method_used pl = ''none'' \<and> \<not> coords_included pl)))"
proof (intro conjI impI)
  assume "lower (cfg_coords_method cfg) = ''fa2'' \<and> networkx be
      \<and> forceatlas2 be (layout_graph X edges) (cfg_fa2_scaling cfg) (cfg_fa2_gravity cfg)
            (cfg_fa2_iterations cfg) rng = Inr c"
  then show "run_layout be rng cfg X edges = Inr (Some c, ''fa2'')"
    by (simp add: run_layout_def layout_graph_def Let_def)
next
  assume "lower (cfg_coords_method cfg) = ''fr'' \<and> networkx be
      \<and> spring_layout be (layout_graph X edges) (cfg_fr_iterations cfg) (Some (cfg_fr_seed cfg)) rng = Inr c"
  then show "run_layout be rng cfg X edges = Inr (Some c, ''fr'')"
    by (simp add: run_layout_def layout_graph_def Let_def)
next
  assume "lower (cfg_coords_method cfg) = ''umap''
      \<and> umap_fit_transform be X (cfg_umap_n_neighbors cfg) (cfg_umap_min_dist cfg)
            (Some (cfg_umap_random_state cfg)) rng = Inr c"
  then show "run_layout be rng cfg X edges = Inr (Some c, ''umap'')"
    by (simp add: run_layout_def Let_def)
next
  assume "lower (cfg_coords_method cfg) = ''pca''
      \<and> pca_fit_transform be X (Some (cfg_pca_random_state cfg)) rng = Inr c"
  then show "run_layout be rng cfg X edges = Inr (Some c, ''pca'')"
    by (simp add: run_layout_def Let_def)
next
  assume "lower (cfg_coords_method cfg) = ''fa2'' \<and> networkx be
      \<and> forceatlas2 be (layout_graph X edges) (cfg_fa2_scaling cfg) (cfg_fa2_gravity cfg)
            (cfg_fa2_iterations cfg) rng = Inl e
      \<and> spring_layout be (layout_graph X edges) (cfg_fr_iterations cfg) (Some (cfg_fr_seed cfg)) rng = Inr c"
  then show "run_layout be rng cfg X edges = Inr (Some c, ''fr'')"
    by (simp add: run_layout_def layout_graph_def Let_def)
next
  assume "lower (cfg_coords_method cfg) = ''umap''
      \<and> umap_fit_transform be X (cfg_umap_n_neighbors cfg) (cfg_umap_min_dist cfg)
            (Some (cfg_umap_random_state cfg)) rng = Inl e
      \<and> pca_fit_transform be X (Some (cfg_pca_random_state cfg)) rng = Inr c"
  then show "run_layout be rng cfg X edges = Inr (Some c, ''pca'')"
    by (simp add: run_layout_def Let_def)
next
  assume "(lower (cfg_coords_method cfg) = ''fa2'' \<or> lower (cfg_coords_method cfg) = ''fr'')
      \<and> \<not> networkx be"
  then show "run_layout be rng cfg X edges
            = Inl (RuntimeError ''coords_method='fa2'/'fr' requires networkx (pip install networkx)'')"
    by (auto simp: run_layout_def Let_def)
next
  assume "(lower (cfg_coords_method cfg) = ''fr''
        \<or> lower (cfg_coords_method cfg) = ''fa2''
          \<and> (\<exists>e'. forceatlas2 be (layout_graph X edges) (cfg_fa2_scaling cfg) (cfg_fa2_gravity cfg)
            (cfg_fa2_iterations cfg) rng = Inl e'))
      \<and> networkx be
      \<and> spring_layout be (layout_graph X edges) (cfg_fr_iterations cfg) (Some (cfg_fr_seed cfg)) rng = Inl e"
  then show "run_layout be rng cfg X edges = Inl e"
    by (auto simp: run_layout_def layout_graph_def Let_def)
next
  assume "(lower (cfg_coords_method cfg) = ''pca''
        \<or> lower (cfg_coords_method cfg) = ''umap''
          \<and> (\<exists>e'. umap_fit_transform be X (cfg_umap_n_neighbors cfg) (cfg_umap_min_dist cfg)
            (Some (cfg_umap_random_state cfg)) rng = Inl e'))
      \<and> pca_fit_transform be X (Some (cfg_pca_random_state cfg)) rng = Inl e"
  then show "run_layout be rng cfg X edges = Inl e"
    by (auto simp: run_layout_def Let_def)
next
  assume "lower (cfg_coords_method cfg) \<noteq> ''fa2'' \<and> lower (cfg_coords_method cfg) \<noteq> ''fr''
      \<and> lower (cfg_coords_method cfg) \<noteq> ''umap'' \<and> lower (cfg_coords_method cfg) \<noteq> ''pca''"
  then show "run_layout be rng cfg X edges = Inr (None, ''none'')"
    by (simp add: run_layout_def Let_def)
next
  assume "prepare d = Inr pr \<and> layout_requested cfg (pr_X pr)
      \<and> run_layout be rng cfg (pr_X pr) (build_edges np cfg (pr_X pr) (pr_cluster_ids pr)) = Inl e"
  then have "build_payload be np rng now cfg d = Inl e"
    using build_payload_layout_error by blast
  then show "export_json_graph be np rng now cfg d fs = (Inl e, fs)"
    by (rule export_error_no_write)
next
  assume "prepare d = Inr pr
      \<and> coords be rng cfg (pr_X pr) (build_edges np cfg (pr_X pr) (pr_cluster_ids pr)) = Inr (xy, mu)
      \<and> build_nodes (cfg_compact cfg) (papers d) xy = Inr ns"
  then show "(\<exists>pl'. build_payload be np rng now cfg d = Inr pl' \<and> coords_method_used pl' = mu
             \<and> coords_included pl' = (xy \<noteq> None) \<and> nodes pl' = ns)"
    using build_payload_success[of d pr be rng cfg np xy mu ns now] by auto
next
  assume "build_payload be np rng now cfg d = Inr pl"
  from build_payload_coords[OF this] obtain pr' xy where
    p: "prepare d = Inr pr'"
    and c: "coords be rng cfg (pr_X pr') (build_edges np cfg (pr_X pr') (pr_cluster_ids pr'))
          = Inr (xy, coords_method_used pl)"
    and i: "coords_included pl = (xy \<noteq> None)" by blast
  from coords_method[OF c] i
  have "if layout_requested cfg (pr_X pr')
        then \<exists>c'. run_layout be rng cfg (pr_X pr')
                    (build_edges np cfg (pr_X pr') (pr_cluster_ids pr'))
                  = Inr (c', coords_method_used pl)
                \<and> coords_included pl = (c' \<noteq> None)
        else coords_method_used pl = ''none'' \<and> \<not> coords_included pl"
    by (auto split: if_splits)
  with p show "(\<exists>pr'. prepare d = Inr pr'
            \<and> (if layout_requested cfg (pr_X pr')
                then \<exists>c'. run_layout be rng cfg (pr_X pr')
                            (build_edges np cfg (pr_X pr') (pr_cluster_ids pr'))
                          = Inr (c', coords_method_used pl)
                        \<and> coords_included pl = (c' \<noteq> None)
                else coords_method_used pl = ''none'' \<and> \<not> coords_included pl))"
    by blast
qed

theorem layout_fallback_witness:
  "lower (cfg_coords_method (method_cfg ''FA2'')) = ''fa2'' \<and> networkx fallback_be
   \<and> forceatlas2 fallback_be (layout_graph example_X []) 2 1 800 0
       = Inl (ImportError ''No module named fa2'')
   \<and> spring_layout fallback_be (layout_graph example_X []) 300 (Some 42) 0 = Inr [(0, 0), (1, 1)]
   \<and> run_layout fallback_be 0 (method_cfg ''FA2'') example_X [] = Inr (Some [(0, 0), (1, 1)], ''fr'')
   \<and> lower (cfg_coords_method (method_cfg ''umap'')) = ''umap''
   \<and> umap_fit_transform fallback_be example_X 15 (1 / 10) (Some 42) 0
       = Inl (ImportError ''No module named umap'')
   \<and> pca_fit_transform fallback_be example_X (Some 42) 0 = Inr [(0, 1), (1, 0)]
   \<and> run_layout fallback_be 0 (method_cfg ''umap'') example_X [] = Inr (Some [(0, 1), (1, 0)], ''pca'')
   \<and> umap_fit_transform example_be example_X 15 (1 / 10) (Some 42) 0 = Inr [(0, 0), (1, 1)]
   \<and> run_layout example_be 0 (method_cfg ''umap'') example_X [] = Inr (Some [(0, 0), (1, 1)], ''umap'')
   \<and> (\<exists>pl. build_payload fallback_be example_np 0 ''t'' (method_cfg ''FA2'') two_papers_db = Inr pl
          \<and> coords_method_used pl = ''fr'' \<and> coords_included pl
          \<and> map n_xy (nodes pl) = [Some (24, 24), Some (976, 676)])"
proof -
  have a: "lower (cfg_coords_method (method_cfg ''FA2'')) = ''fa2''"
       "lower (cfg_coords_method (method_cfg ''umap'')) = ''umap''"
    by (simp_all add: method_cfg_def default_cfg_def lower_examples)
  have b: "networkx fallback_be" by (simp add: fallback_be_def)
  have v: "cfg_fa2_scaling (method_cfg m) = 2" "cfg_fa2_gravity (method_cfg m) = 1"
       "cfg_fa2_iterations (method_cfg m) = 800" "cfg_fr_iterations (method_cfg m) = 300"
       "cfg_fr_seed (method_cfg m) = 42" "cfg_umap_n_neighbors (method_cfg m) = 15"
       "cfg_umap_min_dist (method_cfg m) = 1 / 10" "cfg_umap_random_state (method_cfg m) = 42"
       "cfg_pca_random_state (method_cfg m) = 42" for m
    by (simp_all add: method_cfg_def default_cfg_def)
  have c: "forceatlas2 fallback_be (layout_graph example_X []) 2 1 800 0
           = Inl (ImportError ''No module named fa2'')"
       "spring_layout fallback_be (layout_graph example_X []) 300 (Some 42) 0 = Inr [(0, 0), (1, 1)]"
       "umap_fit_transform fallback_be example_X 15 (1 / 10) (Some 42) 0
           = Inl (ImportError ''No module named umap'')"
       "pca_fit_transform fallback_be example_X (Some 42) 0 = Inr [(0, 1), (1, 0)]"
       "umap_fit_transform example_be example_X 15 (1 / 10) (Some 42) 0 = Inr [(0, 0), (1, 1)]"
    by (simp_all add: fallback_be_def example_be_def)
  from layout_fallback[where cfg = "method_cfg ''FA2''" and be = fallback_be and X = example_X
         and edges = "[]" and rng = 0 and e = "ImportError ''No module named fa2''"
         and c = "[(0, 0), (1, 1)]"]
       a b c v
  have r1: "run_layout fallback_be 0 (method_cfg ''FA2'') example_X [] = Inr (Some [(0, 0), (1, 1)], ''fr'')"
    by simp
  from layout_fallback[where cfg = "method_cfg ''umap''" and be = fallback_be and X = example_X
         and edges = "[]" and rng = 0 and e = "ImportError ''No module named umap''"
         and c = "[(0, 1), (1, 0)]"]
       a b c v
  have r2: "run_layout fallback_be 0 (method_cfg ''umap'') example_X [] = Inr (Some [(0, 1), (1, 0)], ''pca'')"
    by simp
  from layout_fallback[where cfg = "method_cfg ''umap''" and be = example_be and X = example_X
         and edges = "[]" and rng = 0 and c = "[(0, 0), (1, 1)]"]
       a c v
  have r3: "run_layout example_be 0 (method_cfg ''umap'') example_X [] = Inr (Some [(0, 0), (1, 1)], ''umap'')"
    by simp
  from two_nodes[of "''FA2''" "(24, 24)" "(976, 676)"] obtain ns where
    ns: "build_nodes (cfg_compact (method_cfg ''FA2'')) (papers two_papers_db)
           (Some [(24, 24), (976, 676)]) = Inr ns" "map n_xy ns = [Some (24, 24), Some (976, 676)]"
    by (elim exE conjE)
  from layout_fallback[where cfg = "method_cfg ''FA2''" and be = fallback_be and rng = 0
         and d = two_papers_db and np = example_np and now = "''t''" and mu = "''fr''"
         and xy = "Some [(24, 24), (976, 676)]" and ns = ns
         and pr = "\<lparr>pr_ids = [''p1'', ''p2''], pr_cluster_ids = [0, 0], pr_dim = Some 2,
                     pr_X = [unit_vec [1, 0], unit_vec [0, 1]]\<rparr>"
         and X = example_X and edges = "[]" and c = "[]" and e = "ImportError []"
         and fs = Map.empty and pl = undefined]
       two_papers_prepare ns(1)
       fallback_coords[of 0 "build_edges example_np (method_cfg ''FA2'') [unit_vec [1, 0], unit_vec [0, 1]] [0, 0]"]
  have "\<exists>pl'. build_payload fallback_be example_np 0 ''t'' (method_cfg ''FA2'') two_papers_db = Inr pl'
          \<and> coords_method_used pl' = ''fr''
          \<and> coords_included pl' = (Some [(24, 24), (976, 676)] \<noteq> (None :: (int \<times> int) list option))
          \<and> nodes pl' = ns"
    by (simp only: prepared.simps simp_thms)
  then have r4: "\<exists>pl. build_payload fallback_be example_np 0 ''t'' (method_cfg ''FA2'') two_papers_db = Inr pl
          \<and> coords_method_used pl = ''fr'' \<and> coords_included pl
          \<and> map n_xy (nodes pl) = [Some (24, 24), Some (976, 676)]"
    using ns(2) by auto
  from a b c r1 r2 r3 r4 show ?thesis by simp
qed

text \<open>
  Claim C1 fails for the request \<open>fr\<close>: \<open>spring_layout\<close> raises, UMAP and PCA would have
  succeeded, and the export raises without writing a file.
\<close>

theorem layout_fallback_counterexample:
  "cfg_coords_method default_cfg = ''fr''
   \<and> umap_fit_transform example_be [unit_vec [1, 0], unit_vec [0, 1]] 15 (1 / 10) (Some 42) 0
       = Inr [(0, 0), (1, 1)]
   \<and> pca_fit_transform example_be [unit_vec [1, 0], unit_vec [0, 1]] (Some 42) 0 = Inr [(0, 0), (1, 1)]
   \<and> export_json_graph example_be example_np 0 ''t'' default_cfg two_papers_db Map.empty
       = (Inl (BackendError ''spring_layout failed''), Map.empty)"
proof -
  have r: "run_layout example_be 0 default_cfg [unit_vec [1, 0], unit_vec [0, 1]] edges
             = Inl (BackendError ''spring_layout failed'')" for edges
    by (simp add: run_layout_def default_cfg_def lower_examples example_be_def)
  have "build_payload example_be example_np 0 ''t'' default_cfg two_papers_db
          = Inl (BackendError ''spring_layout failed'')"
    by (rule build_payload_layout_error[OF two_papers_prepare]) (simp_all add: two_papers_requested r)
  then have "export_json_graph example_be example_np 0 ''t'' default_cfg two_papers_db Map.empty
       = (Inl (BackendError ''spring_layout failed''), Map.empty)"
    by (rule export_error_no_write)
  then show ?thesis by (simp add: default_cfg_def example_be_def)
qed

section \<open>Determinism of the export\<close>

lemma run_layout_rng:
  assumes "seeded be"
    and "lower (cfg_coords_method cfg) \<noteq> ''fa2''
     \<or> (\<forall>G s g i r1 r2. forceatlas2 be G s g i r1 = forceatlas2 be G s g i r2)"
  shows "run_layout be rng1 cfg X edges = run_layout be rng2 cfg X edges"
proof -
  from assms(1) have s: "spring_layout be G it (Some sd) rng1 = spring_layout be G it (Some sd) rng2"
    and u: "umap_fit_transform be Y n md (Some sd) rng1 = umap_fit_transform be Y n md (Some sd) rng2"
    and p: "pca_fit_transform be Y (Some sd) rng1 = pca_fit_transform be Y (Some sd) rng2"
    for G it sd Y n md
    unfolding seeded_def by blast+
  show ?thesis
  proof (cases "lower (cfg_coords_method cfg) = ''fa2''")
    case False
    then show ?thesis unfolding run_layout_def Let_def s u p by simp
  next
    case True
    with assms(2) have f: "forceatlas2 be G sc g i rng1 = forceatlas2 be G sc g i rng2" for G sc g i
      by blast
    show ?thesis unfolding run_layout_def Let_def s u p f by (rule refl)
  qed
qed

lemma coords_rng:
  assumes "seeded be"
    and "lower (cfg_coords_method cfg) \<noteq> ''fa2''
     \<or> (\<forall>G s g i r1 r2. forceatlas2 be G s g i r1 = forceatlas2 be G s g i r2)"
  shows "coords be rng1 cfg X edges = coords be rng2 cfg X edges"
  unfolding coords_def run_layout_rng[OF assms, of rng1 X edges rng2] by (rule refl)

lemma build_payload_rng:
  assumes "seeded be"
    and "lower (cfg_coords_method cfg) \<noteq> ''fa2''
     \<or> (\<forall>G s g i r1 r2. forceatlas2 be G s g i r1 = forceatlas2 be G s g i r2)"
  shows "build_payload be np rng1 now cfg d = build_payload be np rng2 now cfg d"
  unfolding build_payload_def Let_def coords_rng[OF assms, of rng1 _ _ rng2] by (rule refl)

lemma build_payload_time:
  "erase_time (build_payload be np rng now1 cfg d) = erase_time (build_payload be np rng now2 cfg d)"
  by (auto simp: build_payload_def erase_time_def Let_def split: sum.splits prod.splits)

text \<open>
  Claim C2, as the code has it.  The calls of \<open>spring_layout\<close>, UMAP and PCA are exactly the
  calls with the caller's \<open>fr_seed\<close>, \<open>umap_random_state\<close> and \<open>pca_random_state\<close>; the call
  of ForceAtlas2 carries no seed, only its scaling, gravity and iteration count.  With
  libraries that honour a seed, and when the request is not \<open>fa2\<close> or ForceAtlas2 does not
  draw on the random state, two runs on the same input build the same payload up to the
  timestamp, whatever the random state, and with the same clock reading the export returns
  the same path and writes the same file.
\<close>

theorem export_deterministic:
  "(seeded be
      \<and> (lower (cfg_coords_method cfg) \<noteq> ''fa2''
          \<or> (\<forall>G s g i r1 r2. forceatlas2 be G s g i r1 = forceatlas2 be G s g i r2))
      \<longrightarrow> erase_time (build_payload be np rng1 now1 cfg d)
            = erase_time (build_payload be np rng2 now2 cfg d)
          \<and> export_json_graph be np rng1 now1 cfg d fs = export_json_graph be np rng2 now1 cfg d fs)
   \<and> (lower (cfg_coords_method cfg) = ''fr'' \<and> networkx be
      \<longrightarrow> run_layout be rng cfg X edges
            = (case spring_layout be (layout_graph X edges) (cfg_fr_iterations cfg)
                      (Some (cfg_fr_seed cfg)) rng of
                 Inl e \<Rightarrow> Inl e
               | Inr c \<Rightarrow> Inr (Some c, ''fr'')))
   \<and> (lower (cfg_coords_method cfg) = ''umap''
      \<longrightarrow> run_layout be rng cfg X edges
            = (case umap_fit_transform be X (cfg_umap_n_neighbors cfg) (cfg_umap_min_dist cfg)
                      (Some (cfg_umap_random_state cfg)) rng of
                 Inr c \<Rightarrow> Inr (Some c, ''umap'')
               | Inl e \<Rightarrow>
                   (case pca_fit_transform be X (Some (cfg_pca_random_state cfg)) rng of
                      Inl e' \<Rightarrow> Inl e'
                    | Inr c \<Rightarrow> Inr (Some c, ''pca''))))
   \<and> (lower (cfg_coords_method cfg) = ''pca''
      \<longrightarrow> run_layout be rng cfg X edges
            = (case pca_fit_transform be X (Some (cfg_pca_random_state cfg)) rng of
                 Inl e \<Rightarrow> Inl e
               | Inr c \<Rightarrow> Inr (Some c, ''pca'')))
   \<and> (lower (cfg_coords_method cfg) = ''fa2'' \<and> networkx be
      \<longrightarrow> run_layout be rng cfg X edges
            = (case forceatlas2 be (layout_graph X edges) (cfg_fa2_scaling cfg) (cfg_fa2_gravity cfg)
                      (cfg_fa2_iterations cfg) rng of
                 Inr c \<Rightarrow> Inr (Some c, ''fa2'')
               | Inl e \<Rightarrow>
                   (case spring_layout be (layout_graph X edges) (cfg_fr_iterations cfg)
                           (Some (cfg_fr_seed cfg)) rng of
                      Inl e' \<Rightarrow> Inl e'
                    | Inr c \<Rightarrow> Inr (Some c, ''fr''))))"
proof (intro conjI impI)
  assume a: "seeded be
      \<and> (lower (cfg_coords_method cfg) \<noteq> ''fa2''
          \<or> (\<forall>G s g i r1 r2. forceatlas2 be G s g i r1 = forceatlas2 be G s g i r2))"
  then have s: "seeded be"
    and f: "lower (cfg_coords_method cfg) \<noteq> ''fa2''
          \<or> (\<forall>G s g i r1 r2. forceatlas2 be G s g i r1 = forceatlas2 be G s g i r2)"
    by blast+
  have "erase_time (build_payload be np rng1 now1 cfg d)
         = erase_time (build_payload be np rng2 now1 cfg d)"
    by (simp add: build_payload_rng[OF s f, of np rng1 now1 d rng2])
  also have "\<dots> = erase_time (build_payload be np rng2 now2 cfg d)"
    by (rule build_payload_time)
  finally show "erase_time (build_payload be np rng1 now1 cfg d)
         = erase_time (build_payload be np rng2 now2 cfg d)" .
  show "export_json_graph be np rng1 now1 cfg d fs = export_json_graph be np rng2 now1 cfg d fs"
    unfolding export_json_graph_def build_payload_rng[OF s f, of np rng1 now1 d rng2] by (rule refl)
next
  assume "lower (cfg_coords_method cfg) = ''fr'' \<and> networkx be"
  then show "run_layout be rng cfg X edges
            = (case spring_layout be (layout_graph X edges) (cfg_fr_iterations cfg)
                      (Some (cfg_fr_seed cfg)) rng of
                 Inl e \<Rightarrow> Inl e
               | Inr c \<Rightarrow> Inr (Some c, ''fr''))"
    by (simp add: run_layout_def Let_def)
next
  assume "lower (cfg_coords_method cfg) = ''umap''"
  then show "run_layout be rng cfg X edges
            = (case umap_fit_transform be X (cfg_umap_n_neighbors cfg) (cfg_umap_min_dist cfg)
                      (Some (cfg_umap_random_state cfg)) rng of
                 Inr c \<Rightarrow> Inr (Some c, ''umap'')
               | Inl e \<Rightarrow>
                   (case pca_fit_transform be X (Some (cfg_pca_random_state cfg)) rng of
                      Inl e' \<Rightarrow> Inl e'
                    | Inr c \<Rightarrow> Inr (Some c, ''pca'')))"
    by (simp add: run_layout_def Let_def split: sum.splits)
next
  assume "lower (cfg_coords_method cfg) = ''pca''"
  then show "run_layout be rng cfg X edges
            = (case pca_fit_transform be X (Some (cfg_pca_random_state cfg)) rng of
                 Inl e \<Rightarrow> Inl e
               | Inr c \<Rightarrow> Inr (Some c, ''pca''))"
    by (simp add: run_layout_def Let_def)
next
  assume "lower (cfg_coords_method cfg) = ''fa2'' \<and> networkx be"
  then show "run_layout be rng cfg X edges
            = (case forceatlas2 be (layout_graph X edges) (cfg_fa2_scaling cfg) (cfg_fa2_gravity cfg)
                      (cfg_fa2_iterations cfg) rng of
                 Inr c \<Rightarrow> Inr (Some c, ''fa2'')
               | Inl e \<Rightarrow>
                   (case spring_layout be (layout_graph X edges) (cfg_fr_iterations cfg)
                           (Some (cfg_fr_seed cfg)) rng of
                      Inl e' \<Rightarrow> Inl e'
                    | Inr c \<Rightarrow> Inr (Some c, ''fr'')))"
    by (simp add: run_layout_def Let_def split: sum.splits)
qed

lemma seeded_examples: "seeded example_be" "seeded fallback_be"
  by (simp_all add: seeded_def example_be_def fallback_be_def)

theorem export_deterministic_witness:
  "seeded fallback_be \<and> lower (cfg_coords_method default_cfg) \<noteq> ''fa2''
   \<and> spring_layout fallback_be (2, []) 300 None 0 \<noteq> spring_layout fallback_be (2, []) 300 None 1
   \<and> erase_time (build_payload fallback_be example_np 0 ''t1'' default_cfg two_papers_db)
       = erase_time (build_payload fallback_be example_np 1 ''t2'' default_cfg two_papers_db)
   \<and> export_json_graph fallback_be example_np 0 ''t1'' default_cfg two_papers_db Map.empty
       = export_json_graph fallback_be example_np 1 ''t1'' default_cfg two_papers_db Map.empty
   \<and> (\<exists>pl. build_payload fallback_be example_np 0 ''t1'' default_cfg two_papers_db = Inr pl
          \<and> coords_method_used pl = ''fr''
          \<and> map n_xy (nodes pl) = [Some (24, 24), Some (976, 676)])"
proof -
  have a: "lower (cfg_coords_method default_cfg) \<noteq> ''fa2''"
    by (simp add: default_cfg_def lower_examples)
  have u: "spring_layout fallback_be (2, []) 300 None 0 \<noteq> spring_layout fallback_be (2, []) 300 None 1"
    by (simp add: fallback_be_def)
  from two_nodes[of "''fr''" "(24, 24)" "(976, 676)"] obtain ns where
    ns: "build_nodes (cfg_compact default_cfg) (papers two_papers_db)
           (Some [(24, 24), (976, 676)]) = Inr ns" "map n_xy ns = [Some (24, 24), Some (976, 676)]"
    by (auto simp: method_cfg_def default_cfg_def)
  from build_payload_success[OF two_papers_prepare _ ns(1), of fallback_be 0 example_np "''fr''" "''t1''"]
    fallback_coords_fr ns(2)
  have p: "\<exists>pl. build_payload fallback_be example_np 0 ''t1'' default_cfg two_papers_db = Inr pl
          \<and> coords_method_used pl = ''fr''
          \<and> map n_xy (nodes pl) = [Some (24, 24), Some (976, 676)]" by auto
  from export_deterministic[of fallback_be default_cfg example_np 0 "''t1''" two_papers_db 1 "''t2''"
         Map.empty] a seeded_examples(2) u p
  show ?thesis by blast
qed

text \<open>
  Claim C2 fails for the request \<open>fa2\<close>: the same papers, configuration, seeds and clock
  reading, libraries that honour a seed, two states of the random generator, two
  different payloads.
\<close>

theorem export_deterministic_counterexample:
  "seeded example_be
   \<and> (\<exists>pl0 pl1.
      build_payload example_be example_np 0 ''t'' (method_cfg ''fa2'') two_papers_db = Inr pl0
    \<and> build_payload example_be example_np 1 ''t'' (method_cfg ''fa2'') two_papers_db = Inr pl1
    \<and> map n_xy (nodes pl0) = [Some (24, 24), Some (976, 676)]
    \<and> map n_xy (nodes pl1) = [Some (24, 24), Some (24, 676)])
   \<and> erase_time (build_payload example_be example_np 0 ''t'' (method_cfg ''fa2'') two_papers_db)
       \<noteq> erase_time (build_payload example_be example_np 1 ''t'' (method_cfg ''fa2'') two_papers_db)"
proof -
  from two_nodes[of "''fa2''" "(24, 24)" "(976, 676)"] obtain ns0 where
    n0: "build_nodes (cfg_compact (method_cfg ''fa2'')) (papers two_papers_db)
           (Some [(24, 24), (976, 676)]) = Inr ns0" "map n_xy ns0 = [Some (24, 24), Some (976, 676)]"
    by (elim exE conjE)
  from two_nodes[of "''fa2''" "(24, 24)" "(24, 676)"] obtain ns1 where
    n1: "build_nodes (cfg_compact (method_cfg ''fa2'')) (papers two_papers_db)
           (Some [(24, 24), (24, 676)]) = Inr ns1" "map n_xy ns1 = [Some (24, 24), Some (24, 676)]"
    by (elim exE conjE)
  from build_payload_success[OF two_papers_prepare _ n0(1), of example_be 0 example_np "''fa2''" "''t''"]
    fa2_coords0
  obtain pl0 where p0: "build_payload example_be example_np 0 ''t'' (method_cfg ''fa2'') two_papers_db = Inr pl0"
    "nodes pl0 = ns0" by auto
  from build_payload_success[OF two_papers_prepare _ n1(1), of example_be 1 example_np "''fa2''" "''t''"]
    fa2_coords1
  obtain pl1 where p1: "build_payload example_be example_np 1 ''t'' (method_cfg ''fa2'') two_papers_db = Inr pl1"
    "nodes pl1 = ns1" by auto
  have "nodes pl0 \<noteq> nodes pl1" using p0(2) p1(2) n0(2) n1(2) by auto
  then have "pl0\<lparr>meta_generated_at := []\<rparr> \<noteq> pl1\<lparr>meta_generated_at := []\<rparr>"
    by (metis payload.select_convs(12) payload.surjective payload.update_convs(3))
  then have ne: "erase_time (build_payload example_be example_np 0 ''t'' (method_cfg ''fa2'') two_papers_db)
       \<noteq> erase_time (build_payload example_be example_np 1 ''t'' (method_cfg ''fa2'') two_papers_db)"
    unfolding p0(1) p1(1) erase_time_def by simp
  have ex: "\<exists>pl0 pl1.
      build_payload example_be example_np 0 ''t'' (method_cfg ''fa2'') two_papers_db = Inr pl0
    \<and> build_payload example_be example_np 1 ''t'' (method_cfg ''fa2'') two_papers_db = Inr pl1
    \<and> map n_xy (nodes pl0) = [Some (24, 24), Some (976, 676)]
    \<and> map n_xy (nodes pl1) = [Some (24, 24), Some (24, 676)]"
    apply (rule exI[of _ pl0])
    apply (rule exI[of _ pl1])
    using p0 p1 n0(2) n1(2) by (simp only: simp_thms)
  from seeded_examples(1) ex ne show ?thesis by blast
qed


end
